theory Spec2Isabelle
  imports Main "HOL-Library.Word" "HOL-Library.Sublist" "HOL-Library.AList"
begin

section \<open>Data model\<close>

text \<open>
  A JavaScript string is a sequence of UTF-16 code units. String literals of the
  script are written \<open>js ''...''\<close>.
\<close>

type_synonym jsstring = "16 word list"

definition js :: "string \<Rightarrow> jsstring" where
  "js s = map (\<lambda>c. of_nat (of_char c)) s"

text \<open>
  An element of a paper's \<open>authors\<close> array, as \<open>data/papers.json\<close> has it:
  \<open>{"name": ..., "institution": ...}\<close>. A property that is absent reads as
  \<open>undefined\<close> in the script and is \<open>None\<close> here.
\<close>

record author =
  name :: "jsstring option"
  institution :: "jsstring option"

text \<open>
  The \<open>authors\<close> property of a paper: absent (\<open>undefined\<close>), some value that is
  not an array, or an array of author objects.
\<close>

datatype authors_field = Absent | NonArray | AuthorArray "author list"

record paper =
  title :: jsstring
  authors :: authors_field
  venue :: jsstring
  year :: int
  award :: jsstring
  url :: "jsstring option"

section \<open>Page state\<close>

text \<open>
  The values that the script's number variables take: an integer, one of the two
  infinities (\<open>Math.min()\<close> and \<open>Math.max()\<close> of no argument), or \<open>NaN\<close> (from
  \<open>parseInt\<close>). \<open>js_le a b\<close> is \<open>a <= b\<close> and \<open>js_lt a b\<close> is \<open>a < b\<close>; a
  comparison with \<open>NaN\<close> is false.
\<close>

datatype jsnum = Num int | PosInfinity | NegInfinity | NaN

fun js_le :: "jsnum \<Rightarrow> jsnum \<Rightarrow> bool" where
  "js_le NaN b = False"
| "js_le a NaN = False"
| "js_le (Num a) (Num b) = (a \<le> b)"
| "js_le NegInfinity b = True"
| "js_le a PosInfinity = True"
| "js_le a b = False"

fun js_lt :: "jsnum \<Rightarrow> jsnum \<Rightarrow> bool" where
  "js_lt NaN b = False"
| "js_lt a NaN = False"
| "js_lt (Num a) (Num b) = (a < b)"
| "js_lt PosInfinity b = False"
| "js_lt a NegInfinity = False"
| "js_lt a b = True"

text \<open>
  The script's global variables, and the strings that the two range inputs
  \<open>year-slider-from\<close> and \<open>year-slider-to\<close> hold as their \<open>value\<close>.
  \<open>yearFrom\<close> and \<open>yearTo\<close> start as \<open>null\<close>.
\<close>

record page =
  allPapers :: "paper list"
  currentVenue :: jsstring
  yearFrom :: "jsnum option"
  yearTo :: "jsnum option"
  minYear :: jsnum
  maxYear :: jsnum
  sliderFrom :: jsstring
  sliderTo :: jsstring

section \<open>Filtering\<close>

text \<open>
  \<open>applyFilters\<close> (main.js, lines 94 to 108): the value of \<open>filtered\<close> that is
  handed to the three render functions.
\<close>

definition applyFilters :: "page \<Rightarrow> paper list" where
  "applyFilters s =
     (let filtered = allPapers s;
          filtered = (if currentVenue s \<noteq> js ''all''
                      then filter (\<lambda>p. venue p = currentVenue s) filtered
                      else filtered);
          filtered = (case yearFrom s of
                        None \<Rightarrow> filtered
                      | Some yf \<Rightarrow> filter (\<lambda>p. js_le yf (Num (year p))) filtered);
          filtered = (case yearTo s of
                        None \<Rightarrow> filtered
                      | Some yt \<Rightarrow> filter (\<lambda>p. js_le (Num (year p)) yt) filtered)
      in filtered)"

text \<open>The predicate of the specification's \<open>filter(C, v, yFrom, yTo)\<close>.\<close>

definition matches :: "jsstring \<Rightarrow> int \<Rightarrow> int \<Rightarrow> paper \<Rightarrow> bool" where
  "matches v yFrom yTo p \<longleftrightarrow>
     (v = js ''all'' \<or> venue p = v) \<and> yFrom \<le> year p \<and> year p \<le> yTo"

section \<open>JavaScript library functions used by the ranking\<close>

subsection \<open>Strings\<close>

text \<open>
  The code units that \<open>String.prototype.trim\<close> strips and that \<open>\s\<close> matches:
  the WhiteSpace and LineTerminator code points of ECMAScript, all of them in
  the Basic Multilingual Plane.
\<close>

definition is_space :: "16 word \<Rightarrow> bool" where
  "is_space c \<longleftrightarrow>
     c \<in> {0x09, 0x0A, 0x0B, 0x0C, 0x0D, 0x20, 0xA0, 0x1680,
          0x2028, 0x2029, 0x202F, 0x205F, 0x3000, 0xFEFF}
     \<or> (0x2000 \<le> c \<and> c \<le> 0x200A)"

definition trim :: "jsstring \<Rightarrow> jsstring" where
  "trim s = rev (dropWhile is_space (rev (dropWhile is_space s)))"

text \<open>
  \<open>s.split(/\s+/)\<close>: the pieces of \<open>s\<close> between maximal runs of white space.
  White space at the start or at the end of \<open>s\<close> gives an empty first or last
  piece, and the empty string gives one empty piece. \<open>cur\<close> is the piece read so far.
\<close>

function split_space :: "jsstring \<Rightarrow> jsstring \<Rightarrow> jsstring list" where
  "split_space cur [] = [cur]"
| "split_space cur (c # cs) =
     (if is_space c then cur # split_space [] (dropWhile is_space cs)
      else split_space (cur @ [c]) cs)"
  by pat_completeness auto
termination
  by (relation "measure (\<lambda>(cur, s). length s)")
     (auto simp: le_imp_less_Suc length_dropWhile_le)

text \<open>\<open>getSurname\<close> (main.js, lines 256 to 259 and 353 to 356).\<close>

definition getSurname :: "jsstring \<Rightarrow> jsstring" where
  "getSurname nm = (let parts = split_space [] (trim nm) in last parts)"

subsection \<open>Objects used as dictionaries\<close>

text \<open>
  \<open>authorPapers\<close> is an object literal \<open>{}\<close>: its own properties, in the order of
  their creation, and behind them the properties it inherits from
  \<open>Object.prototype\<close>.
\<close>

type_synonym 'v js_object = "(jsstring \<times> 'v) list"

definition Object_prototype_keys :: "jsstring list" where
  "Object_prototype_keys = map js
     [''constructor'', ''hasOwnProperty'', ''isPrototypeOf'', ''propertyIsEnumerable'',
      ''toLocaleString'', ''toString'', ''valueOf'', ''__proto__'',
      ''__defineGetter__'', ''__defineSetter__'', ''__lookupGetter__'', ''__lookupSetter__'']"

text \<open>
  The value of \<open>obj[k]\<close>: an own property, a property inherited from
  \<open>Object.prototype\<close> (a function or the prototype object itself: truthy, and
  without a \<open>push\<close> method), or \<open>undefined\<close>.
\<close>

datatype 'v property = Own 'v | Inherited | Undefined

definition get_property :: "'v js_object \<Rightarrow> jsstring \<Rightarrow> 'v property" where
  "get_property obj k =
     (case map_of obj k of
        Some v \<Rightarrow> Own v
      | None \<Rightarrow> if k \<in> set Object_prototype_keys then Inherited else Undefined)"

text \<open>The array stored under a key of \<open>authorPapers\<close>; empty when there is none.\<close>

definition stored :: "'v list js_object \<Rightarrow> jsstring \<Rightarrow> 'v list" where
  "stored obj k = (case map_of obj k of None \<Rightarrow> [] | Some l \<Rightarrow> l)"

text \<open>
  \<open>Object.entries\<close> lists the own properties whose key is an array index (the
  canonical decimal form of an integer from 0 to 2^32 - 2) first, in ascending
  numeric order, and then the other keys in the order of their creation.
\<close>

definition is_digit :: "16 word \<Rightarrow> bool" where
  "is_digit c \<longleftrightarrow> 0x30 \<le> c \<and> c \<le> 0x39"

definition digits_value :: "jsstring \<Rightarrow> nat" where
  "digits_value k = foldl (\<lambda>n c. 10 * n + (unat c - 48)) 0 k"

definition is_array_index :: "jsstring \<Rightarrow> bool" where
  "is_array_index k \<longleftrightarrow>
     k \<noteq> [] \<and> list_all is_digit k \<and> (hd k \<noteq> 0x30 \<or> length k = 1)
     \<and> digits_value k \<le> 4294967294"

definition Object_entries :: "'v js_object \<Rightarrow> (jsstring \<times> 'v) list" where
  "Object_entries obj =
     sort_key (\<lambda>kv. digits_value (fst kv)) (filter (\<lambda>kv. is_array_index (fst kv)) obj)
     @ filter (\<lambda>kv. \<not> is_array_index (fst kv)) obj"

subsection \<open>Sorting an array\<close>

text \<open>
  \<open>Array.prototype.sort(cmp)\<close> is stable: with a consistent comparison function
  the result is the one arrangement of the elements that is ordered by \<open>cmp\<close> and
  keeps elements that compare equal in their former order. Insertion from the
  right computes it: \<open>x\<close> stays in front of \<open>y\<close> when \<open>cmp x y \<le> 0\<close>.
\<close>

fun insert_cmp :: "('a \<Rightarrow> 'a \<Rightarrow> int) \<Rightarrow> 'a \<Rightarrow> 'a list \<Rightarrow> 'a list" where
  "insert_cmp cmp x [] = [x]"
| "insert_cmp cmp x (y # ys) =
     (if cmp x y \<le> 0 then x # y # ys else y # insert_cmp cmp x ys)"

definition js_sort :: "('a \<Rightarrow> 'a \<Rightarrow> int) \<Rightarrow> 'a list \<Rightarrow> 'a list" where
  "js_sort cmp xs = foldr (insert_cmp cmp) xs []"


section \<open>Ranking\<close>

datatype error = TypeError

type_synonym authorPapers = "paper list js_object"

text \<open>
  The three statements that credit \<open>paper\<close> to \<open>name\<close> (main.js, lines 248 to 251
  and 346 to 349):
  \<^verbatim>\<open>if (!authorPapers[name]) { authorPapers[name] = []; }\<close>
  \<^verbatim>\<open>authorPapers[name].push(paper);\<close>
  An assignment to a property keeps the place of a key the object has and puts a
  new key last (\<open>AList.update\<close>). An array and an inherited value are truthy, so
  only \<open>undefined\<close> leads to the assignment. An inherited value has no \<open>push\<close>
  method, and the call raises a TypeError.
\<close>

definition credit :: "authorPapers \<Rightarrow> jsstring \<Rightarrow> paper \<Rightarrow> error + authorPapers" where
  "credit ap nm p =
     (let ap = (case get_property ap nm of
                  Undefined \<Rightarrow> AList.update nm [] ap
                | _ \<Rightarrow> ap)
      in case get_property ap nm of
           Own ps \<Rightarrow> Inr (AList.update nm (ps @ [p]) ap)
         | _ \<Rightarrow> Inl TypeError)"

text \<open>
  The inner \<open>forEach\<close> of \<open>renderAuthorsRanking\<close> (lines 245 to 252): an author
  whose name is \<open>undefined\<close> or the empty string is passed over.
\<close>

fun credit_authors :: "authorPapers \<Rightarrow> paper \<Rightarrow> author list \<Rightarrow> error + authorPapers" where
  "credit_authors ap p [] = Inr ap"
| "credit_authors ap p (a # as) =
     (case name a of
        None \<Rightarrow> credit_authors ap p as
      | Some nm \<Rightarrow>
          if nm = [] then credit_authors ap p as
          else (case credit ap nm p of
                  Inl e \<Rightarrow> Inl e
                | Inr ap' \<Rightarrow> credit_authors ap' p as))"

text \<open>The outer \<open>forEach\<close> of \<open>renderAuthorsRanking\<close> (lines 243 to 253).\<close>

fun collect_authors :: "authorPapers \<Rightarrow> paper list \<Rightarrow> error + authorPapers" where
  "collect_authors ap [] = Inr ap"
| "collect_authors ap (p # ps) =
     (case authors p of
        AuthorArray as \<Rightarrow>
          (case credit_authors ap p as of
             Inl e \<Rightarrow> Inl e
           | Inr ap' \<Rightarrow> collect_authors ap' ps)
      | _ \<Rightarrow> collect_authors ap ps)"

text \<open>The \<open>forEach\<close> of \<open>renderFirstAuthorsRanking\<close> (lines 341 to 350).\<close>

fun collect_first_authors :: "authorPapers \<Rightarrow> paper list \<Rightarrow> error + authorPapers" where
  "collect_first_authors ap [] = Inr ap"
| "collect_first_authors ap (p # ps) =
     (case authors p of
        AuthorArray (firstAuthor # _) \<Rightarrow>
          (case name firstAuthor of
             None \<Rightarrow> collect_first_authors ap ps
           | Some nm \<Rightarrow>
               if nm = [] then collect_first_authors ap ps
               else (case credit ap nm p of
                       Inl e \<Rightarrow> Inl e
                     | Inr ap' \<Rightarrow> collect_first_authors ap' ps))
      | _ \<Rightarrow> collect_first_authors ap ps)"

text \<open>
  An element of \<open>authorList\<close>: \<open>{ name, papers, count }\<close>, and the property \<open>rank\<close>
  once the ranks are assigned. The type \<open>'p\<close> is that of the \<open>papers\<close> array.
\<close>

record 'p entry =
  ename :: jsstring
  papers :: 'p
  count :: nat

record 'p ranked = "'p entry" +
  rank :: nat

text \<open>The function mapped over \<open>Object.entries(authorPapers)\<close> (line 263).\<close>

definition entry_of :: "jsstring \<times> paper list \<Rightarrow> paper list entry" where
  "entry_of = (\<lambda>(nm, ps). \<lparr>ename = nm, papers = ps, count = length ps\<rparr>)"

text \<open>The comparison function of the sort of \<open>authorList\<close> (lines 264 to 269).\<close>

definition author_cmp ::
  "(jsstring \<Rightarrow> jsstring \<Rightarrow> int) \<Rightarrow> ('p, 'a) entry_scheme \<Rightarrow> ('p, 'a) entry_scheme \<Rightarrow> int" where
  "author_cmp lc a b =
     (if count b \<noteq> count a then int (count b) - int (count a)
      else lc (getSurname (ename a)) (getSurname (ename b)))"

text \<open>
  The \<open>forEach\<close> that assigns the ranks (lines 277 to 285), with its two
  variables \<open>previousCount\<close> (\<open>null\<close> at first) and \<open>currentRank\<close>.
\<close>

fun assign_ranks :: "nat option \<Rightarrow> nat \<Rightarrow> 'p entry list \<Rightarrow> 'p ranked list" where
  "assign_ranks previousCount currentRank [] = []"
| "assign_ranks previousCount currentRank (a # as) =
     (let currentRank = (if Some (count a) \<noteq> previousCount then currentRank + 1
                         else currentRank)
      in \<lparr>ename = ename a, papers = papers a, count = count a, rank = currentRank\<rparr>
         # assign_ranks (Some (count a)) currentRank as)"

text \<open>The comparison function of the sort of an author's papers (line 296).\<close>

definition year_cmp :: "paper \<Rightarrow> paper \<Rightarrow> int" where
  "year_cmp a b = year b - year a"

text \<open>
  Lines 262 to 303, the same as lines 359 to 400: from the dictionary to the
  entries that are rendered, each with its rank, name, count and sorted papers.
\<close>

definition authorList ::
  "(jsstring \<Rightarrow> jsstring \<Rightarrow> int) \<Rightarrow> authorPapers \<Rightarrow> paper list entry list" where
  "authorList lc ap = js_sort (author_cmp lc) (map entry_of (Object_entries ap))"

definition ranking ::
  "(jsstring \<Rightarrow> jsstring \<Rightarrow> int) \<Rightarrow> authorPapers \<Rightarrow> paper list ranked list" where
  "ranking lc ap =
     map (\<lambda>a. a\<lparr>papers := js_sort year_cmp (papers a)\<rparr>)
       (assign_ranks None 0 (authorList lc ap))"

definition renderAuthorsRanking ::
  "(jsstring \<Rightarrow> jsstring \<Rightarrow> int) \<Rightarrow> paper list \<Rightarrow> error + paper list ranked list" where
  "renderAuthorsRanking lc ps =
     (case collect_authors [] ps of
        Inl e \<Rightarrow> Inl e
      | Inr ap \<Rightarrow> Inr (ranking lc ap))"

definition renderFirstAuthorsRanking ::
  "(jsstring \<Rightarrow> jsstring \<Rightarrow> int) \<Rightarrow> paper list \<Rightarrow> error + paper list ranked list" where
  "renderFirstAuthorsRanking lc ps =
     (case collect_first_authors [] ps of
        Inl e \<Rightarrow> Inl e
      | Inr ap \<Rightarrow> Inr (ranking lc ap))"

section \<open>Ranking, with the arrays in a store\<close>

text \<open>
  The ranking functions sort arrays in place and hold the paper objects by
  reference. Here the objects and the arrays live in a store: a paper object at
  each object address, and the arrays that exist, each with its elements
  (addresses of paper objects). The address of an array is its index in
  \<open>arrays\<close>, and a new array gets the next index.
\<close>

record store =
  objects :: "nat \<Rightarrow> paper"
  arrays :: "nat list list"

text \<open>The array literal \<open>[]\<close> and \<open>Array.prototype.push\<close>.\<close>

definition new_array :: "store \<Rightarrow> nat \<times> store" where
  "new_array h = (length (arrays h), h\<lparr>arrays := arrays h @ [[]]\<rparr>)"

definition push :: "store \<Rightarrow> nat \<Rightarrow> nat \<Rightarrow> error + store" where
  "push h a r =
     (if a < length (arrays h)
      then Inr (h\<lparr>arrays := (arrays h)[a := arrays h ! a @ [r]]\<rparr>)
      else Inl TypeError)"

text \<open>
  The same statements as in \<open>credit\<close>, \<open>credit_authors\<close>, \<open>collect_authors\<close> and
  \<open>collect_first_authors\<close>: \<open>authorPapers\<close> holds the addresses of the arrays, and
  \<open>r\<close> is the address of the paper. An exception comes with the store as it is
  when it is raised.
\<close>

type_synonym 'a outcome = "error \<times> store + store \<times> 'a"

definition credit_st ::
  "store \<Rightarrow> nat js_object \<Rightarrow> jsstring \<Rightarrow> nat \<Rightarrow> nat js_object outcome" where
  "credit_st h ap nm r =
     (let (h, ap) = (case get_property ap nm of
                       Undefined \<Rightarrow> (let (a, h') = new_array h in (h', AList.update nm a ap))
                     | _ \<Rightarrow> (h, ap))
      in case get_property ap nm of
           Own a \<Rightarrow> (case push h a r of Inl e \<Rightarrow> Inl (e, h) | Inr h' \<Rightarrow> Inr (h', ap))
         | _ \<Rightarrow> Inl (TypeError, h))"

fun credit_authors_st ::
  "store \<Rightarrow> nat js_object \<Rightarrow> nat \<Rightarrow> author list \<Rightarrow> nat js_object outcome" where
  "credit_authors_st h ap r [] = Inr (h, ap)"
| "credit_authors_st h ap r (a # as) =
     (case name a of
        None \<Rightarrow> credit_authors_st h ap r as
      | Some nm \<Rightarrow>
          if nm = [] then credit_authors_st h ap r as
          else (case credit_st h ap nm r of
                  Inl e \<Rightarrow> Inl e
                | Inr (h', ap') \<Rightarrow> credit_authors_st h' ap' r as))"

text \<open>
  \<open>papers.forEach\<close> takes the length of the array when it starts and reads the
  element at each index \<open>k\<close> below it from the array as it is then. The body for
  one paper of \<open>renderAuthorsRanking\<close> (lines 244 to 252) and of
  \<open>renderFirstAuthorsRanking\<close> (lines 342 to 349):
\<close>

definition paper_authors_st :: "store \<Rightarrow> nat js_object \<Rightarrow> nat \<Rightarrow> nat js_object outcome" where
  "paper_authors_st h ap r =
     (case authors (objects h r) of
        AuthorArray as \<Rightarrow> credit_authors_st h ap r as
      | _ \<Rightarrow> Inr (h, ap))"

definition paper_first_author_st :: "store \<Rightarrow> nat js_object \<Rightarrow> nat \<Rightarrow> nat js_object outcome" where
  "paper_first_author_st h ap r =
     (case authors (objects h r) of
        AuthorArray (firstAuthor # _) \<Rightarrow>
          (case name firstAuthor of
             None \<Rightarrow> Inr (h, ap)
           | Some nm \<Rightarrow> if nm = [] then Inr (h, ap) else credit_st h ap nm r)
      | _ \<Rightarrow> Inr (h, ap))"

function forEach_st ::
  "(store \<Rightarrow> nat js_object \<Rightarrow> nat \<Rightarrow> nat js_object outcome) \<Rightarrow>
   store \<Rightarrow> nat js_object \<Rightarrow> nat \<Rightarrow> nat \<Rightarrow> nat \<Rightarrow> nat js_object outcome" where
  "forEach_st body h ap a k len =
     (if k < len
      then if a < length (arrays h) \<and> k < length (arrays h ! a)
           then (case body h ap (arrays h ! a ! k) of
                   Inl e \<Rightarrow> Inl e
                 | Inr (h', ap') \<Rightarrow> forEach_st body h' ap' a (Suc k) len)
           else forEach_st body h ap a (Suc k) len
      else Inr (h, ap))"
  by pat_completeness auto
termination
  by (relation "measure (\<lambda>(body, h, ap, a, k, len). len - k)") auto

text \<open>The elements of the array at an address; none when there is no such array.\<close>

definition elements :: "store \<Rightarrow> nat \<Rightarrow> nat list" where
  "elements h a = (if a < length (arrays h) then arrays h ! a else [])"

definition entry_at :: "store \<Rightarrow> jsstring \<times> nat \<Rightarrow> nat entry" where
  "entry_at h = (\<lambda>(nm, a). \<lparr>ename = nm, papers = a, count = length (elements h a)\<rparr>)"

definition year_cmp_st :: "store \<Rightarrow> nat \<Rightarrow> nat \<Rightarrow> int" where
  "year_cmp_st h a b = year (objects h b) - year (objects h a)"

text \<open>
  The last \<open>forEach\<close> (lines 292 to 318): \<open>author.papers.sort(...)\<close> sorts the
  array of each author in place, one author after the other.
\<close>

fun sort_papers :: "store \<Rightarrow> nat ranked list \<Rightarrow> store" where
  "sort_papers h [] = h"
| "sort_papers h (a # as) =
     sort_papers
       (h\<lparr>arrays := (arrays h)[papers a := js_sort (year_cmp_st h) (elements h (papers a))]\<rparr>)
       as"

definition ranking_st ::
  "(jsstring \<Rightarrow> jsstring \<Rightarrow> int) \<Rightarrow> store \<Rightarrow> nat js_object \<Rightarrow> store \<times> nat ranked list" where
  "ranking_st lc h ap =
     (let es = assign_ranks None 0
                 (js_sort (author_cmp lc) (map (entry_at h) (Object_entries ap)))
      in (sort_papers h es, es))"

text \<open>
  The two functions, called with the address of the array \<open>papers\<close>. They give
  the store they leave and the entries, each with the address of its array.
\<close>

definition render_st ::
  "(store \<Rightarrow> nat js_object \<Rightarrow> nat \<Rightarrow> nat js_object outcome) \<Rightarrow>
   (jsstring \<Rightarrow> jsstring \<Rightarrow> int) \<Rightarrow> store \<Rightarrow> nat \<Rightarrow> nat ranked list outcome" where
  "render_st body lc h papers_at =
     (if papers_at < length (arrays h)
      then (case forEach_st body h [] papers_at 0 (length (arrays h ! papers_at)) of
              Inl e \<Rightarrow> Inl e
            | Inr (h', ap) \<Rightarrow> Inr (ranking_st lc h' ap))
      else Inl (TypeError, h))"

definition renderAuthorsRanking_st ::
  "(jsstring \<Rightarrow> jsstring \<Rightarrow> int) \<Rightarrow> store \<Rightarrow> nat \<Rightarrow> nat ranked list outcome" where
  "renderAuthorsRanking_st = render_st paper_authors_st"

definition renderFirstAuthorsRanking_st ::
  "(jsstring \<Rightarrow> jsstring \<Rightarrow> int) \<Rightarrow> store \<Rightarrow> nat \<Rightarrow> nat ranked list outcome" where
  "renderFirstAuthorsRanking_st = render_st paper_first_author_st"

text \<open>The store that a call leaves, with a result or with an exception.\<close>

definition store_after :: "'a outcome \<Rightarrow> store" where
  "store_after out = (case out of Inl (e, h) \<Rightarrow> h | Inr (h, x) \<Rightarrow> h)"

text \<open>
  What the loops keep true of the store \<open>h\<close> and of \<open>authorPapers\<close>, from a store
  \<open>h0\<close> and with the papers \<open>R\<close> to credit: the objects and the arrays of \<open>h0\<close>
  are as they were, and the arrays of \<open>authorPapers\<close> were created since and hold
  papers of \<open>R\<close>.
\<close>

definition unchanged :: "store \<Rightarrow> store \<Rightarrow> bool" where
  "unchanged h0 h \<longleftrightarrow>
     objects h = objects h0 \<and> take (length (arrays h0)) (arrays h) = arrays h0"

definition created_since :: "store \<Rightarrow> nat set \<Rightarrow> store \<Rightarrow> nat js_object \<Rightarrow> bool" where
  "created_since h0 R h ap \<longleftrightarrow>
     unchanged h0 h
     \<and> (\<forall>a \<in> snd ` set ap.
           length (arrays h0) \<le> a \<and> a < length (arrays h) \<and> set (elements h a) \<subseteq> R)"

definition kept :: "store \<Rightarrow> nat set \<Rightarrow> nat js_object outcome \<Rightarrow> bool" where
  "kept h0 R out \<longleftrightarrow>
     (case out of
        Inl (e, h) \<Rightarrow> unchanged h0 h
      | Inr (h, ap) \<Rightarrow> created_since h0 R h ap)"

section \<open>What the specification says of the ranking\<close>

text \<open>The author records of a paper that bear the name \<open>X\<close>, and whether there is one.\<close>

definition occurrences :: "jsstring \<Rightarrow> paper \<Rightarrow> nat" where
  "occurrences X p =
     (case authors p of
        AuthorArray as \<Rightarrow> length (filter (\<lambda>a. name a = Some X) as)
      | _ \<Rightarrow> 0)"

definition lists_author :: "jsstring \<Rightarrow> paper \<Rightarrow> bool" where
  "lists_author X p =
     (case authors p of
        AuthorArray as \<Rightarrow> list_ex (\<lambda>a. name a = Some X) as
      | _ \<Rightarrow> False)"

text \<open>
  The papers of a collection, each as many times as it has author records with
  the name \<open>X\<close>, in the order of the collection.
\<close>

definition credited_all :: "jsstring \<Rightarrow> paper list \<Rightarrow> paper list" where
  "credited_all X ps = concat (map (\<lambda>p. replicate (occurrences X p) p) ps)"

text \<open>The author record at index 0 of the paper's authors bears the name \<open>X\<close>.\<close>

definition is_first_author :: "jsstring \<Rightarrow> paper \<Rightarrow> bool" where
  "is_first_author X p =
     (case authors p of
        AuthorArray (a # _) \<Rightarrow> name a = Some X
      | _ \<Rightarrow> False)"

definition has_author_array :: "paper \<Rightarrow> bool" where
  "has_author_array p = (case authors p of AuthorArray as \<Rightarrow> True | _ \<Rightarrow> False)"

text \<open>
  The names under which a paper is credited: the names of its author records that
  are neither missing nor empty, and that of its first author record alone.
\<close>

definition truthy_name :: "author \<Rightarrow> jsstring list" where
  "truthy_name a = (case name a of None \<Rightarrow> [] | Some nm \<Rightarrow> if nm = [] then [] else [nm])"

definition author_names :: "paper \<Rightarrow> jsstring list" where
  "author_names p =
     (case authors p of
        AuthorArray as \<Rightarrow> concat (map truthy_name as)
      | _ \<Rightarrow> [])"

definition first_author_name :: "paper \<Rightarrow> jsstring list" where
  "first_author_name p =
     (case authors p of
        AuthorArray (a # _) \<Rightarrow> truthy_name a
      | _ \<Rightarrow> [])"

text \<open>
  The credits of a collection, one after the other: a pair for each name under
  which a paper is credited. \<open>credit_each\<close> runs \<open>credit\<close> over such a list.
\<close>

definition credits :: "(paper \<Rightarrow> jsstring list) \<Rightarrow> paper list \<Rightarrow> (jsstring \<times> paper) list" where
  "credits names ps = concat (map (\<lambda>p. map (\<lambda>nm. (nm, p)) (names p)) ps)"

fun credit_each :: "authorPapers \<Rightarrow> (jsstring \<times> paper) list \<Rightarrow> error + authorPapers" where
  "credit_each ap [] = Inr ap"
| "credit_each ap (c # cs) =
     (case credit ap (fst c) (snd c) of
        Inl e \<Rightarrow> Inl e
      | Inr ap' \<Rightarrow> credit_each ap' cs)"




text \<open>A comparison of strings by code units, as an instance of \<open>localeCompare\<close>.\<close>

fun codeunit_compare :: "jsstring \<Rightarrow> jsstring \<Rightarrow> int" where
  "codeunit_compare [] [] = 0"
| "codeunit_compare [] (y # ys) = - 1"
| "codeunit_compare (x # xs) [] = 1"
| "codeunit_compare (x # xs) (y # ys) =
     (if x < y then - 1 else if y < x then 1 else codeunit_compare xs ys)"

section \<open>Year range\<close>

text \<open>
  What the script uses of the browser: \<open>parseInt\<close>, and the string that a range
  input with the bounds \<open>min\<close> and \<open>max\<close> holds as its \<open>value\<close> once a number is
  assigned to it (the number is turned into a string and the element adjusts it).
  Both are parameters of the functions below.
\<close>

record browser =
  parseInt :: "jsstring \<Rightarrow> jsnum"
  range_value :: "jsnum \<Rightarrow> jsnum \<Rightarrow> jsnum \<Rightarrow> jsstring"

text \<open>\<open>Math.min(...years)\<close> and \<open>Math.max(...years)\<close> (lines 19 and 20).\<close>

definition Math_min :: "int list \<Rightarrow> jsnum" where
  "Math_min ys = (case ys of [] \<Rightarrow> PosInfinity | y # ys' \<Rightarrow> Num (fold min ys' y))"

definition Math_max :: "int list \<Rightarrow> jsnum" where
  "Math_max ys = (case ys of [] \<Rightarrow> NegInfinity | y # ys' \<Rightarrow> Num (fold max ys' y))"

text \<open>\<open>initYearSlider\<close> (lines 37 to 59).\<close>

definition initYearSlider :: "browser \<Rightarrow> page \<Rightarrow> page" where
  "initYearSlider d s =
     s\<lparr>sliderFrom := range_value d (minYear s) (maxYear s) (minYear s),
       sliderTo := range_value d (minYear s) (maxYear s) (maxYear s),
       yearFrom := Some (minYear s), yearTo := Some (maxYear s)\<rparr>"

text \<open>
  \<open>loadPapers\<close> (lines 11 to 34), from the parsed document on. An exception of
  one of the two ranking functions is caught, and then \<open>setupFilters\<close> has not
  run: no handler is registered. \<open>renderPapers\<close> raises nothing.
\<close>

definition loadPapers ::
  "browser \<Rightarrow> (jsstring \<Rightarrow> jsstring \<Rightarrow> int) \<Rightarrow> paper list \<Rightarrow> page \<Rightarrow> error + page" where
  "loadPapers d lc data s =
     (let s = s\<lparr>allPapers := data\<rparr>;
          years = map year (allPapers s);
          s = s\<lparr>minYear := Math_min years\<rparr>;
          s = s\<lparr>maxYear := Math_max years\<rparr>;
          s = initYearSlider d s
      in case renderAuthorsRanking lc (allPapers s) of
           Inl e \<Rightarrow> Inl e
         | Inr _ \<Rightarrow>
             (case renderFirstAuthorsRanking lc (allPapers s) of
                Inl e \<Rightarrow> Inl e
              | Inr _ \<Rightarrow> Inr s))"

text \<open>
  The events that \<open>setupFilters\<close> listens to on the year controls: the user moves
  one of the two sliders, or clicks the reset button. The browser has stored the
  new value, a string, in the slider when the \<open>input\<close> handler runs.
\<close>

datatype event = SlideFrom jsstring | SlideTo jsstring | ResetYears

text \<open>
  The three handlers (lines 191 to 226), without the rendering they end with:
  the rendering comes after the assignments and changes no variable.
\<close>

fun handle :: "browser \<Rightarrow> page \<Rightarrow> event \<Rightarrow> page" where
  "handle d s (SlideFrom v) =
     (let s = s\<lparr>sliderFrom := v\<rparr>;
          val = parseInt d (sliderFrom s)
      in if js_lt (parseInt d (sliderTo s)) val
         then (let val = parseInt d (sliderTo s);
                   s = s\<lparr>sliderFrom := range_value d (minYear s) (maxYear s) val\<rparr>
               in s\<lparr>yearFrom := Some val\<rparr>)
         else s\<lparr>yearFrom := Some val\<rparr>)"
| "handle d s (SlideTo v) =
     (let s = s\<lparr>sliderTo := v\<rparr>;
          val = parseInt d (sliderTo s)
      in if js_lt val (parseInt d (sliderFrom s))
         then (let val = parseInt d (sliderFrom s);
                   s = s\<lparr>sliderTo := range_value d (minYear s) (maxYear s) val\<rparr>
               in s\<lparr>yearTo := Some val\<rparr>)
         else s\<lparr>yearTo := Some val\<rparr>)"
| "handle d s ResetYears =
     s\<lparr>sliderFrom := range_value d (minYear s) (maxYear s) (minYear s),
       sliderTo := range_value d (minYear s) (maxYear s) (maxYear s),
       yearFrom := Some (minYear s), yearTo := Some (maxYear s)\<rparr>"

text \<open>
  The range is in order when both bounds are integers, the lower one not above
  the upper one.
\<close>

definition in_order :: "page \<Rightarrow> bool" where
  "in_order s \<longleftrightarrow>
     (case (yearFrom s, yearTo s) of
        (Some (Num f), Some (Num t)) \<Rightarrow> f \<le> t
      | _ \<Rightarrow> False)"

text \<open>
  Where the handlers do keep the range in order: the bounds of the sliders are
  integers, a slider gives back the integers between them that are assigned to
  it, and the user moves a slider to an integer between them.
\<close>

definition between_bounds :: "page \<Rightarrow> int \<Rightarrow> bool" where
  "between_bounds s v \<longleftrightarrow>
     (case (minYear s, maxYear s) of
        (Num lo, Num hi) \<Rightarrow> lo \<le> v \<and> v \<le> hi
      | _ \<Rightarrow> False)"

definition gives_back :: "browser \<Rightarrow> page \<Rightarrow> bool" where
  "gives_back d s \<longleftrightarrow>
     (\<forall>v. between_bounds s v \<longrightarrow>
        parseInt d (range_value d (minYear s) (maxYear s) (Num v)) = Num v)"

definition moved_between :: "browser \<Rightarrow> page \<Rightarrow> event \<Rightarrow> bool" where
  "moved_between d s e \<longleftrightarrow>
     (case e of
        SlideFrom str \<Rightarrow> (\<exists>v. parseInt d str = Num v \<and> between_bounds s v)
      | SlideTo str \<Rightarrow> (\<exists>v. parseInt d str = Num v \<and> between_bounds s v)
      | ResetYears \<Rightarrow> True)"

definition year_range_ok :: "browser \<Rightarrow> page \<Rightarrow> bool" where
  "year_range_ok d s \<longleftrightarrow>
     (\<exists>f t. yearFrom s = Some (Num f) \<and> yearTo s = Some (Num t)
        \<and> parseInt d (sliderFrom s) = Num f \<and> parseInt d (sliderTo s) = Num t
        \<and> f \<le> t \<and> between_bounds s f \<and> between_bounds s t)"

section \<open>Example data\<close>

text \<open>The two papers of the specification's scenario, and a third without authors.\<close>

definition alice :: author where
  "alice = \<lparr>name = Some (js ''Alice Smith''), institution = None\<rparr>"

definition bob :: author where
  "bob = \<lparr>name = Some (js ''Bob Lee''), institution = Some (js ''Uni'')\<rparr>"

definition paper1 :: paper where
  "paper1 = \<lparr>title = js ''P1'', authors = AuthorArray [alice], venue = js ''CCS'',
            year = 2020, award = js ''Best Paper'', url = None\<rparr>"

definition paper2 :: paper where
  "paper2 = \<lparr>title = js ''P2'', authors = AuthorArray [bob, alice], venue = js ''S&P'',
            year = 2021, award = js ''Best Paper'', url = None\<rparr>"

definition paper3 :: paper where
  "paper3 = \<lparr>title = js ''P3'', authors = Absent, venue = js ''CCS'',
            year = 2019, award = js ''Best Paper'', url = None\<rparr>"

definition paper4 :: paper where
  "paper4 = \<lparr>title = js ''P4'', authors = AuthorArray [alice, alice], venue = js ''NDSS'',
            year = 2022, award = js ''Best Paper'', url = None\<rparr>"

definition paper5 :: paper where
  "paper5 = \<lparr>title = js ''P5'', authors = AuthorArray [], venue = js ''CCS'',
            year = 2021, award = js ''Best Paper'', url = None\<rparr>"

definition paper6 :: paper where
  "paper6 = \<lparr>title = js ''P6'', authors = NonArray, venue = js ''CCS'',
            year = 2021, award = js ''Best Paper'', url = None\<rparr>"

definition nameless :: author where
  "nameless = \<lparr>name = None, institution = Some (js ''Uni'')\<rparr>"

definition paper7 :: paper where
  "paper7 = \<lparr>title = js ''P7'', authors = AuthorArray [nameless, bob], venue = js ''CCS'',
            year = 2018, award = js ''Best Paper'', url = None\<rparr>"

definition paper8 :: paper where
  "paper8 = \<lparr>title = js ''P8'',
            authors = AuthorArray [\<lparr>name = Some (js ''constructor''), institution = None\<rparr>],
            venue = js ''CCS'', year = 2018, award = js ''Best Paper'', url = None\<rparr>"


text \<open>
  A store with the two papers at the object addresses 0 and 1 and one array,
  \<open>[paper1, paper2]\<close>.
\<close>

definition store0 :: store where
  "store0 = \<lparr>objects = (\<lambda>r. if r = 0 then paper1 else paper2), arrays = [[0, 1]]\<rparr>"

definition page0 :: page where
  "page0 = \<lparr>allPapers = [], currentVenue = js ''all'', yearFrom = None, yearTo = None,
           minYear = Num 2012, maxYear = Num 2025, sliderFrom = [], sliderTo = []\<rparr>"

section \<open>Filtering: results\<close>

lemma applyFilters_eq:
  assumes "yearFrom s = Some (Num yFrom)" "yearTo s = Some (Num yTo)"
  shows "applyFilters s = filter (matches (currentVenue s) yFrom yTo) (allPapers s)"
  using assms by (auto simp: applyFilters_def matches_def Let_def intro: filter_cong)

text \<open>
  C1. With a year range of two integers set, \<open>applyFilters\<close> selects from the
  collection exactly the papers whose venue is the chosen one (any venue for
  \<open>all\<close>) and whose year lies in the range, both ends included: each paper it
  returns passes both tests, each paper of the collection that passes both is
  returned, and the papers returned stand in the order they have in the
  collection.
\<close>

theorem applyFilters_subsequence:
  assumes "yearFrom s = Some (Num yFrom)" and "yearTo s = Some (Num yTo)"
  shows "applyFilters s = filter (matches (currentVenue s) yFrom yTo) (allPapers s)
    \<and> (\<forall>p \<in> set (applyFilters s). matches (currentVenue s) yFrom yTo p)
    \<and> (\<forall>p \<in> set (allPapers s). matches (currentVenue s) yFrom yTo p \<longrightarrow> p \<in> set (applyFilters s))
    \<and> subseq (applyFilters s) (allPapers s)"
  by (simp add: applyFilters_eq [OF assms])

theorem applyFilters_subsequence_witness:
  "applyFilters (page0\<lparr>allPapers := [paper1, paper2, paper3], currentVenue := js ''CCS'',
                       yearFrom := Some (Num 2020), yearTo := Some (Num 2021)\<rparr>) = [paper1]
   \<and> subseq [paper1] [paper1, paper2, paper3]"
  using applyFilters_subsequence
    [of "page0\<lparr>allPapers := [paper1, paper2, paper3], currentVenue := js ''CCS'',
                yearFrom := Some (Num 2020), yearTo := Some (Num 2021)\<rparr>" 2020 2021]
  by (simp add: page0_def paper1_def paper2_def paper3_def matches_def js_def)

text \<open>
  C7. With a lower bound above the upper bound \<open>applyFilters\<close> returns the empty
  sequence, for every collection and venue. The function has no failing branch.
\<close>

theorem applyFilters_inverted_range:
  assumes "yearFrom s = Some (Num yFrom)" and "yearTo s = Some (Num yTo)" and "yFrom > yTo"
  shows "applyFilters s = []"
  using assms(3) by (auto simp: applyFilters_eq [OF assms(1,2)] matches_def filter_empty_conv)

theorem applyFilters_inverted_range_witness:
  "applyFilters (page0\<lparr>allPapers := [paper1, paper2, paper3],
                       yearFrom := Some (Num 2021), yearTo := Some (Num 2019)\<rparr>) = []"
  using applyFilters_inverted_range
    [of "page0\<lparr>allPapers := [paper1, paper2, paper3],
                yearFrom := Some (Num 2021), yearTo := Some (Num 2019)\<rparr>" 2021 2019]
  by (simp add: page0_def)

section \<open>Sorting and ranks\<close>

lemma set_insert_cmp: "set (insert_cmp cmp x ys) = insert x (set ys)"
  by (induction ys) auto

lemma length_insert_cmp: "length (insert_cmp cmp x ys) = Suc (length ys)"
  by (induction ys) auto

lemma distinct_insert_cmp: "distinct (insert_cmp cmp x ys) \<longleftrightarrow> x \<notin> set ys \<and> distinct ys"
  by (induction ys) (auto simp: set_insert_cmp)


lemma set_js_sort: "set (js_sort cmp xs) = set xs"
  by (induction xs) (simp_all add: js_sort_def set_insert_cmp)

lemma length_js_sort: "length (js_sort cmp xs) = length xs"
  by (induction xs) (simp_all add: js_sort_def length_insert_cmp)

lemma distinct_js_sort: "distinct (js_sort cmp xs) = distinct xs"
  by (induction xs) (simp_all add: js_sort_def distinct_insert_cmp set_js_sort [unfolded js_sort_def])

lemma distinct_map_js_sort: "distinct (map f (js_sort cmp xs)) = distinct (map f xs)"
  by (simp add: distinct_map set_js_sort distinct_js_sort)





lemma map_assign_ranks:
  "map ename (assign_ranks pc r xs) = map ename xs"
  "map papers (assign_ranks pc r xs) = map papers xs"
  "map count (assign_ranks pc r xs) = map count xs"
  by (induction xs arbitrary: pc r) (simp_all add: Let_def)

lemma length_assign_ranks: "length (assign_ranks pc r xs) = length xs"
  by (induction xs arbitrary: pc r) (simp_all add: Let_def)



section \<open>Crediting\<close>

lemma credit_eq:
  "credit ap nm p =
     (case map_of ap nm of
        Some l \<Rightarrow> Inr (AList.update nm (l @ [p]) ap)
      | None \<Rightarrow> if nm \<in> set Object_prototype_keys then Inl TypeError
                else Inr (AList.update nm [p] ap))"
  by (simp add: credit_def get_property_def Let_def update_conv' split: option.splits)

lemma credit_Inr:
  assumes "credit ap nm p = Inr ap'"
  shows "map_of ap' = (map_of ap)(nm \<mapsto> stored ap nm @ [p])"
    and "distinct (map fst ap) \<Longrightarrow> distinct (map fst ap')"
    and "map_of ap nm = None \<Longrightarrow> nm \<notin> set Object_prototype_keys"
  using assms
  by (auto simp: credit_eq stored_def update_conv' distinct_update
           split: option.splits if_splits)

lemma credit_Inl:
  "credit ap nm p = Inl e \<longleftrightarrow> map_of ap nm = None \<and> nm \<in> set Object_prototype_keys"
  by (cases e) (auto simp: credit_eq split: option.splits)

lemma credit_each_append:
  "credit_each ap (xs @ ys) =
     (case credit_each ap xs of Inl e \<Rightarrow> Inl e | Inr ap' \<Rightarrow> credit_each ap' ys)"
  by (induction xs arbitrary: ap) (auto split: sum.splits)

lemma credit_each_Inr:
  assumes "credit_each ap cs = Inr ap'"
  shows "stored ap' X = stored ap X @ map snd (filter (\<lambda>c. fst c = X) cs)
       \<and> dom (map_of ap') = dom (map_of ap) \<union> fst ` set cs
       \<and> (distinct (map fst ap) \<longrightarrow> distinct (map fst ap'))"
  using assms
proof (induction cs arbitrary: ap)
  case Nil
  then show ?case by simp
next
  case (Cons c cs)
  from Cons.prems obtain ap1 where c1: "credit ap (fst c) (snd c) = Inr ap1"
    and c2: "credit_each ap1 cs = Inr ap'"
    by (auto split: sum.splits)
  note ih = Cons.IH [OF c2]
  have m: "map_of ap1 = (map_of ap)(fst c \<mapsto> stored ap (fst c) @ [snd c])"
    by (rule credit_Inr(1) [OF c1])
  have s1: "stored ap1 X = stored ap X @ (if fst c = X then [snd c] else [])"
    by (simp add: stored_def m)
  have d1: "dom (map_of ap1) = insert (fst c) (dom (map_of ap))"
    by (simp add: m)
  show ?case
    using ih s1 d1 credit_Inr(2) [OF c1] by auto
qed

lemma credit_each_Inl:
  "(\<exists>e. credit_each ap cs = Inl e) \<longleftrightarrow>
   (\<exists>c \<in> set cs. fst c \<in> set Object_prototype_keys \<and> map_of ap (fst c) = None)"
proof (induction cs arbitrary: ap)
  case Nil
  then show ?case by simp
next
  case (Cons c cs)
  show ?case
  proof (cases "credit ap (fst c) (snd c)")
    case (Inl e)
    then have "map_of ap (fst c) = None \<and> fst c \<in> set Object_prototype_keys"
      by (simp add: credit_Inl)
    with Inl show ?thesis by auto
  next
    case (Inr ap1)
    have m: "map_of ap1 = (map_of ap)(fst c \<mapsto> stored ap (fst c) @ [snd c])"
      by (rule credit_Inr(1) [OF Inr])
    have n: "map_of ap (fst c) = None \<Longrightarrow> fst c \<notin> set Object_prototype_keys"
      by (rule credit_Inr(3) [OF Inr])
    have "(\<exists>e. credit_each ap (c # cs) = Inl e) \<longleftrightarrow> (\<exists>e. credit_each ap1 cs = Inl e)"
      using Inr by simp
    also have "\<dots> \<longleftrightarrow> (\<exists>c' \<in> set cs. fst c' \<in> set Object_prototype_keys \<and> map_of ap1 (fst c') = None)"
      by (rule Cons.IH)
    also have "\<dots> \<longleftrightarrow> (\<exists>c' \<in> set (c # cs). fst c' \<in> set Object_prototype_keys \<and> map_of ap (fst c') = None)"
    proof -
      have "fst c' \<in> set Object_prototype_keys \<and> map_of ap1 (fst c') = None \<longleftrightarrow>
            fst c' \<in> set Object_prototype_keys \<and> map_of ap (fst c') = None" for c' :: "jsstring \<times> paper"
        using n by (cases "fst c' = fst c") (auto simp: m)
      moreover have "\<not> (fst c \<in> set Object_prototype_keys \<and> map_of ap (fst c) = None)"
        using n by blast
      ultimately show ?thesis by auto
    qed
    finally show ?thesis .
  qed
qed

lemma credit_authors_each:
  "credit_authors ap p as = credit_each ap (map (\<lambda>nm. (nm, p)) (concat (map truthy_name as)))"
  by (induction as arbitrary: ap) (auto simp: truthy_name_def split: option.splits sum.splits)

lemma collect_authors_each:
  "collect_authors ap ps = credit_each ap (credits author_names ps)"
proof (induction ps arbitrary: ap)
  case Nil
  then show ?case by (simp add: credits_def)
next
  case (Cons p ps)
  show ?case
  proof (cases "authors p")
    case (AuthorArray as)
    then show ?thesis
      using Cons
      by (simp add: credits_def author_names_def credit_authors_each credit_each_append
               split: sum.splits)
  qed (use Cons in \<open>simp_all add: credits_def author_names_def\<close>)
qed

lemma collect_first_authors_each:
  "collect_first_authors ap ps = credit_each ap (credits first_author_name ps)"
proof (induction ps arbitrary: ap)
  case Nil
  then show ?case by (simp add: credits_def)
next
  case (Cons p ps)
  then show ?case
    by (auto simp: credits_def first_author_name_def truthy_name_def
             split: authors_field.splits list.splits option.splits sum.splits)
qed

lemma credits_of_name:
  "map snd (filter (\<lambda>c. fst c = X) (credits names ps)) =
   concat (map (\<lambda>p. replicate (length (filter (\<lambda>n. n = X) (names p))) p) ps)"
proof -
  have "map snd (filter (\<lambda>c. fst c = X) (map (\<lambda>nm. (nm, p)) ns)) =
        replicate (length (filter (\<lambda>n. n = X) ns)) p" for p :: paper and ns
    by (induction ns) auto
  then show ?thesis
    by (induction ps) (simp_all add: credits_def)
qed

lemma author_names_occurrences:
  "X \<noteq> [] \<Longrightarrow> length (filter (\<lambda>n. n = X) (author_names p)) = occurrences X p"
proof -
  assume X: "X \<noteq> []"
  have "length (filter (\<lambda>n. n = X) (concat (map truthy_name as))) =
        length (filter (\<lambda>a. name a = Some X) as)" for as
    using X by (induction as) (auto simp: truthy_name_def split: option.splits)
  then show ?thesis
    by (simp add: author_names_def occurrences_def split: authors_field.splits)
qed

lemma credits_all:
  "X \<noteq> [] \<Longrightarrow> map snd (filter (\<lambda>c. fst c = X) (credits author_names ps)) = credited_all X ps"
  by (simp add: credits_of_name author_names_occurrences credited_all_def)

lemma first_author_name_eq:
  "X \<noteq> [] \<Longrightarrow> length (filter (\<lambda>n. n = X) (first_author_name p)) = (if is_first_author X p then 1 else 0)"
  by (auto simp: first_author_name_def is_first_author_def truthy_name_def
           split: authors_field.splits list.splits option.splits)

lemma credits_first:
  "X \<noteq> [] \<Longrightarrow> map snd (filter (\<lambda>c. fst c = X) (credits first_author_name ps)) = filter (is_first_author X) ps"
  by (induction ps) (simp_all add: credits_of_name first_author_name_eq)

lemma credits_names_nonempty:
  "c \<in> set (credits author_names ps) \<Longrightarrow> fst c \<noteq> []"
  "c \<in> set (credits first_author_name ps) \<Longrightarrow> fst c \<noteq> []"
  by (auto simp: credits_def author_names_def first_author_name_def truthy_name_def
           split: authors_field.splits list.splits option.splits if_splits)

section \<open>Entries\<close>

lemma set_Object_entries: "set (Object_entries obj) = set obj"
  by (auto simp: Object_entries_def)

lemma distinct_Object_entries: "distinct (Object_entries obj) = distinct obj"
proof -
  have "distinct (Object_entries obj) \<longleftrightarrow>
        distinct (filter (\<lambda>kv. is_array_index (fst kv)) obj)
        \<and> distinct (filter (\<lambda>kv. \<not> is_array_index (fst kv)) obj)"
    by (auto simp: Object_entries_def)
  also have "\<dots> \<longleftrightarrow> distinct obj"
    by (induction obj) auto
  finally show ?thesis .
qed

lemma distinct_keys_Object_entries:
  "distinct (map fst (Object_entries obj)) = distinct (map fst obj)"
  by (simp add: distinct_map set_Object_entries distinct_Object_entries)

lemma authorList_mk: "authorList lc ap = js_sort (author_cmp lc) (map entry_of (Object_entries ap))"
  by (simp add: authorList_def)

lemma set_authorList: "set (authorList lc ap) = entry_of ` set ap"
  by (simp add: authorList_mk set_js_sort set_Object_entries)

lemma names_authorList:
  "distinct (map ename (authorList lc ap)) = distinct (map fst ap)"
proof -
  have "ename \<circ> entry_of = fst"
    by (auto simp: entry_of_def fun_eq_iff)
  then show ?thesis
    by (simp add: authorList_mk distinct_map_js_sort distinct_keys_Object_entries)
qed

lemma authorList_entry:
  assumes "distinct (map fst ap)" "a \<in> set (authorList lc ap)"
  shows "ename a \<in> dom (map_of ap) \<and> papers a = stored ap (ename a)
         \<and> count a = length (stored ap (ename a))"
proof -
  from assms(2) obtain nm l where "(nm, l) \<in> set ap" "a = entry_of (nm, l)"
    by (auto simp: set_authorList)
  moreover from this assms(1) have "map_of ap nm = Some l"
    by simp
  ultimately show ?thesis
    by (auto simp: entry_of_def stored_def)
qed

lemma ranking_nth:
  assumes "i < length (authorList lc ap)"
  shows "ename (ranking lc ap ! i) = ename (authorList lc ap ! i)"
    and "count (ranking lc ap ! i) = count (authorList lc ap ! i)"
    and "papers (ranking lc ap ! i) = js_sort year_cmp (papers (authorList lc ap ! i))"
    and "rank (ranking lc ap ! i) = rank (assign_ranks None 0 (authorList lc ap) ! i)"
proof -
  let ?xs = "authorList lc ap"
  have i: "i < length (assign_ranks None 0 ?xs)"
    using assms by (simp add: length_assign_ranks)
  have "ename (assign_ranks None 0 ?xs ! i) = map ename (assign_ranks None 0 ?xs) ! i"
    using i by simp
  then show "ename (ranking lc ap ! i) = ename (?xs ! i)"
    using i assms by (simp add: ranking_def map_assign_ranks)
  have "count (assign_ranks None 0 ?xs ! i) = map count (assign_ranks None 0 ?xs) ! i"
    using i by simp
  then show "count (ranking lc ap ! i) = count (?xs ! i)"
    using i assms by (simp add: ranking_def map_assign_ranks)
  have "papers (assign_ranks None 0 ?xs ! i) = map papers (assign_ranks None 0 ?xs) ! i"
    using i by simp
  then show "papers (ranking lc ap ! i) = js_sort year_cmp (papers (?xs ! i))"
    using i assms by (simp add: ranking_def map_assign_ranks)
  show "rank (ranking lc ap ! i) = rank (assign_ranks None 0 ?xs ! i)"
    using i by (simp add: ranking_def)
qed

lemma length_ranking: "length (ranking lc ap) = length (authorList lc ap)"
  by (simp add: ranking_def length_assign_ranks)

lemma names_ranking: "map ename (ranking lc ap) = map ename (authorList lc ap)"
  by (rule nth_equalityI) (simp_all add: length_ranking ranking_nth)

lemma ranking_entry:
  assumes "distinct (map fst ap)" "e \<in> set (ranking lc ap)"
  shows "ename e \<in> dom (map_of ap) \<and> papers e = js_sort year_cmp (stored ap (ename e))
         \<and> count e = length (stored ap (ename e))"
proof -
  from assms(2) obtain i where i: "i < length (authorList lc ap)" and e: "e = ranking lc ap ! i"
    by (auto simp: in_set_conv_nth length_ranking)
  have "authorList lc ap ! i \<in> set (authorList lc ap)"
    using i by simp
  from authorList_entry [OF assms(1) this] show ?thesis
    by (simp add: e ranking_nth [OF i])
qed

lemma ranking_names:
  assumes "distinct (map fst ap)"
  shows "distinct (map ename (ranking lc ap))"
    and "ename ` set (ranking lc ap) = dom (map_of ap)"
proof -
  show "distinct (map ename (ranking lc ap))"
    using assms by (simp add: names_ranking names_authorList)
  have "ename ` set (ranking lc ap) = set (map ename (authorList lc ap))"
    by (simp flip: names_ranking)
  also have "\<dots> = ename ` entry_of ` set ap"
    by (simp add: set_authorList)
  also have "\<dots> = fst ` set ap"
    by (force simp: entry_of_def image_iff)
  also have "\<dots> = dom (map_of ap)"
    by (simp add: dom_map_of_conv_image_fst)
  finally show "ename ` set (ranking lc ap) = dom (map_of ap)" .
qed

lemma renderAuthorsRanking_Inr:
  assumes "renderAuthorsRanking lc ps = Inr es"
  shows "\<exists>ap. collect_authors [] ps = Inr ap \<and> es = ranking lc ap
    \<and> distinct (map fst ap) \<and> dom (map_of ap) = fst ` set (credits author_names ps)
    \<and> (\<forall>X. X \<noteq> [] \<longrightarrow> stored ap X = credited_all X ps)
    \<and> (\<forall>X \<in> dom (map_of ap). X \<noteq> [])"
proof -
  from assms obtain ap where ap: "collect_authors [] ps = Inr ap" and es: "es = ranking lc ap"
    by (auto simp: renderAuthorsRanking_def split: sum.splits)
  from ap have ce: "credit_each [] (credits author_names ps) = Inr ap"
    by (simp add: collect_authors_each)
  have st: "stored ap X = stored [] X @ map snd (filter (\<lambda>c. fst c = X) (credits author_names ps))"
    and dm: "dom (map_of ap) = dom (map_of ([] :: authorPapers)) \<union> fst ` set (credits author_names ps)"
    and ds: "distinct (map fst ([] :: authorPapers)) \<longrightarrow> distinct (map fst ap)" for X
    using credit_each_Inr [OF ce] by blast+
  have "distinct (map fst ap)" using ds by simp
  moreover have dm': "dom (map_of ap) = fst ` set (credits author_names ps)" using dm by simp
  moreover have "\<forall>X \<in> dom (map_of ap). X \<noteq> []"
    unfolding dm' by (auto dest: credits_names_nonempty(1))
  moreover have "\<forall>X. X \<noteq> [] \<longrightarrow> stored ap X = credited_all X ps"
    using st by (simp add: stored_def credits_all)
  ultimately show ?thesis
    using ap es by blast
qed

lemma renderFirstAuthorsRanking_Inr:
  assumes "renderFirstAuthorsRanking lc ps = Inr es"
  shows "\<exists>ap. collect_first_authors [] ps = Inr ap \<and> es = ranking lc ap
    \<and> distinct (map fst ap) \<and> dom (map_of ap) = fst ` set (credits first_author_name ps)
    \<and> (\<forall>X. X \<noteq> [] \<longrightarrow> stored ap X = filter (is_first_author X) ps)
    \<and> (\<forall>X \<in> dom (map_of ap). X \<noteq> [])"
proof -
  from assms obtain ap where ap: "collect_first_authors [] ps = Inr ap" and es: "es = ranking lc ap"
    by (auto simp: renderFirstAuthorsRanking_def split: sum.splits)
  from ap have ce: "credit_each [] (credits first_author_name ps) = Inr ap"
    by (simp add: collect_first_authors_each)
  have st: "stored ap X = stored [] X @ map snd (filter (\<lambda>c. fst c = X) (credits first_author_name ps))"
    and dm: "dom (map_of ap) = dom (map_of ([] :: authorPapers)) \<union> fst ` set (credits first_author_name ps)"
    and ds: "distinct (map fst ([] :: authorPapers)) \<longrightarrow> distinct (map fst ap)" for X
    using credit_each_Inr [OF ce] by blast+
  have "distinct (map fst ap)" using ds by simp
  moreover have dm': "dom (map_of ap) = fst ` set (credits first_author_name ps)" using dm by simp
  moreover have "\<forall>X \<in> dom (map_of ap). X \<noteq> []"
    unfolding dm' by (auto dest: credits_names_nonempty(2))
  moreover have "\<forall>X. X \<noteq> [] \<longrightarrow> stored ap X = filter (is_first_author X) ps"
    using st by (simp add: stored_def credits_first)
  ultimately show ?thesis
    using ap es by blast
qed

section \<open>Surnames\<close>















section \<open>Order of the entries\<close>












section \<open>Credits and the lists of the specification\<close>

lemma credits_filter:
  "(\<And>p. p \<in> set ps \<Longrightarrow> \<not> Q p \<Longrightarrow> names p = []) \<Longrightarrow> credits names (filter Q ps) = credits names ps"
  by (induction ps) (auto simp: credits_def)

lemma no_array_no_names:
  "\<not> has_author_array p \<Longrightarrow> author_names p = []"
  "\<not> has_author_array p \<Longrightarrow> first_author_name p = []"
  by (auto simp: has_author_array_def author_names_def first_author_name_def
           split: authors_field.splits)

lemma render_filter_array:
  "renderAuthorsRanking lc (filter has_author_array ps) = renderAuthorsRanking lc ps"
  "renderFirstAuthorsRanking lc (filter has_author_array ps) = renderFirstAuthorsRanking lc ps"
  by (simp_all add: renderAuthorsRanking_def renderFirstAuthorsRanking_def
        collect_authors_each collect_first_authors_each credits_filter no_array_no_names)

lemma empty_array_no_name: "\<not> authors p \<noteq> AuthorArray [] \<Longrightarrow> first_author_name p = []"
  by (simp add: first_author_name_def)

lemma render_filter_empty:
  "renderFirstAuthorsRanking lc (filter (\<lambda>p. authors p \<noteq> AuthorArray []) ps) = renderFirstAuthorsRanking lc ps"
  by (simp add: renderFirstAuthorsRanking_def collect_first_authors_each credits_filter
        empty_array_no_name)

lemma lists_author_occurrences: "lists_author X p \<longleftrightarrow> occurrences X p > 0"
  by (auto simp: lists_author_def occurrences_def list_ex_iff filter_empty_conv
           split: authors_field.splits)

lemma length_credited_all: "length (credited_all X ps) = sum_list (map (occurrences X) ps)"
  by (induction ps) (simp_all add: credited_all_def)

lemma set_credited_all: "set (credited_all X ps) = {p \<in> set ps. lists_author X p}"
  by (auto simp: credited_all_def lists_author_occurrences)

lemma occurrences_once:
  "(\<forall>p \<in> set ps. occurrences X p \<le> 1) \<Longrightarrow>
   sum_list (map (occurrences X) ps) = length (filter (lists_author X) ps)"
proof (induction ps)
  case Nil
  then show ?case by simp
next
  case (Cons p ps)
  have ih: "sum_list (map (occurrences X) ps) = length (filter (lists_author X) ps)"
    using Cons by simp
  have "occurrences X p \<le> 1"
    using Cons.prems by simp
  then have "occurrences X p = (if 0 < occurrences X p then 1 else 0)"
    by simp
  then have "occurrences X p = (if lists_author X p then 1 else 0)"
    by (simp only: lists_author_occurrences)
  then show ?case
    by (simp add: ih)
qed

lemma truthy_name_iff: "X \<in> set (truthy_name a) \<longleftrightarrow> X \<noteq> [] \<and> name a = Some X"
proof (cases "name a")
  case None
  then show ?thesis by (simp add: truthy_name_def)
next
  case (Some nm)
  then show ?thesis by (cases "nm = []") (auto simp: truthy_name_def)
qed

lemma names_listed_array:
  "authors p = AuthorArray as \<Longrightarrow> X \<in> set (author_names p) \<longleftrightarrow> X \<noteq> [] \<and> lists_author X p"
  by (simp add: author_names_def lists_author_def list_ex_iff truthy_name_iff)

lemma names_listed:
  "X \<in> set (author_names p) \<longleftrightarrow> X \<noteq> [] \<and> lists_author X p"
  by (cases "authors p") (simp_all add: names_listed_array, simp_all add: author_names_def lists_author_def)

lemma first_name_listed:
  "X \<in> set (first_author_name p) \<longleftrightarrow> X \<noteq> [] \<and> is_first_author X p"
proof (cases "authors p")
  case (AuthorArray as)
  then show ?thesis
    by (cases as) (simp_all add: first_author_name_def is_first_author_def truthy_name_iff)
qed (simp_all add: first_author_name_def is_first_author_def)

lemma fst_credits: "fst ` set (credits names ps) = (\<Union>p \<in> set ps. set (names p))"
  by (induction ps) (simp_all add: credits_def image_Un image_image)

lemma credits_filter_names: "credits names (filter (\<lambda>p. names p \<noteq> []) ps) = credits names ps"
  by (rule credits_filter) simp

lemma render_filter_names:
  "renderAuthorsRanking lc (filter (\<lambda>p. author_names p \<noteq> []) ps) = renderAuthorsRanking lc ps"
  "renderFirstAuthorsRanking lc (filter (\<lambda>p. first_author_name p \<noteq> []) ps)
     = renderFirstAuthorsRanking lc ps"
  by (simp_all add: renderAuthorsRanking_def renderFirstAuthorsRanking_def
        collect_authors_each collect_first_authors_each credits_filter_names)

lemma credit_each_error:
  assumes "credit_each [] (credits names ps) = Inl err"
  shows "\<exists>p \<in> set ps. \<exists>nm \<in> set Object_prototype_keys. nm \<in> set (names p)"
proof -
  from assms have "\<exists>e. credit_each [] (credits names ps) = Inl e" by blast
  then obtain c where c: "c \<in> set (credits names ps)" "fst c \<in> set Object_prototype_keys"
    unfolding credit_each_Inl by blast
  from c(1) have "fst c \<in> (\<Union>p \<in> set ps. set (names p))"
    unfolding fst_credits [symmetric] by (rule imageI)
  with c(2) show ?thesis by blast
qed

lemma render_error:
  "renderAuthorsRanking lc ps = Inl err \<Longrightarrow>
     \<exists>p \<in> set ps. \<exists>nm \<in> set Object_prototype_keys. lists_author nm p"
  "renderFirstAuthorsRanking lc ps = Inl err \<Longrightarrow>
     \<exists>p \<in> set ps. \<exists>nm \<in> set Object_prototype_keys. is_first_author nm p"
proof -
  assume "renderAuthorsRanking lc ps = Inl err"
  then have "credit_each [] (credits author_names ps) = Inl err"
    by (simp add: renderAuthorsRanking_def collect_authors_each split: sum.splits)
  from credit_each_error [OF this] show
    "\<exists>p \<in> set ps. \<exists>nm \<in> set Object_prototype_keys. lists_author nm p"
    unfolding names_listed by blast
next
  assume "renderFirstAuthorsRanking lc ps = Inl err"
  then have "credit_each [] (credits first_author_name ps) = Inl err"
    by (simp add: renderFirstAuthorsRanking_def collect_first_authors_each split: sum.splits)
  from credit_each_error [OF this] show
    "\<exists>p \<in> set ps. \<exists>nm \<in> set Object_prototype_keys. is_first_author nm p"
    unfolding first_name_listed by blast
qed

lemma render_no_error:
  assumes "\<forall>p \<in> set ps. \<forall>nm \<in> set Object_prototype_keys. \<not> lists_author nm p"
  shows "\<exists>es. renderAuthorsRanking lc ps = Inr es"
proof (cases "renderAuthorsRanking lc ps")
  case (Inl err)
  from render_error(1) [OF Inl] assms show ?thesis by blast
next
  case (Inr es)
  then show ?thesis by blast
qed

lemma render_first_no_error:
  assumes "\<forall>p \<in> set ps. \<forall>nm \<in> set Object_prototype_keys. \<not> is_first_author nm p"
  shows "\<exists>es. renderFirstAuthorsRanking lc ps = Inr es"
proof (cases "renderFirstAuthorsRanking lc ps")
  case (Inl err)
  from render_error(2) [OF Inl] assms show ?thesis by blast
next
  case (Inr es)
  then show ?thesis by blast
qed

lemma all_entries:
  assumes "renderAuthorsRanking lc ps = Inr es"
  shows "\<forall>e \<in> set es. ename e \<noteq> [] \<and> (\<exists>p \<in> set ps. lists_author (ename e) p)"
    and "\<forall>p \<in> set ps. \<forall>nm. nm \<noteq> [] \<and> lists_author nm p \<longrightarrow>
           (\<exists>e \<in> set es. ename e = nm \<and> p \<in> set (papers e))"
proof -
  from renderAuthorsRanking_Inr [OF assms] obtain ap where ap:
    "collect_authors [] ps = Inr ap \<and> es = ranking lc ap
     \<and> distinct (map fst ap) \<and> dom (map_of ap) = fst ` set (credits author_names ps)
     \<and> (\<forall>X. X \<noteq> [] \<longrightarrow> stored ap X = credited_all X ps)
     \<and> (\<forall>X \<in> dom (map_of ap). X \<noteq> [])" ..
  have es: "es = ranking lc ap" and ds: "distinct (map fst ap)"
    and dm: "dom (map_of ap) = fst ` set (credits author_names ps)"
    using ap by simp_all
  have st: "stored ap X = credited_all X ps" if "X \<noteq> []" for X
    using ap that by simp
  have names: "ename ` set es = {nm. nm \<noteq> [] \<and> (\<exists>p \<in> set ps. lists_author nm p)}"
    unfolding es ranking_names(2) [OF ds] dm fst_credits by (auto simp: names_listed)
  show "\<forall>e \<in> set es. ename e \<noteq> [] \<and> (\<exists>p \<in> set ps. lists_author (ename e) p)"
    using names by blast
  show "\<forall>p \<in> set ps. \<forall>nm. nm \<noteq> [] \<and> lists_author nm p \<longrightarrow>
           (\<exists>e \<in> set es. ename e = nm \<and> p \<in> set (papers e))"
  proof (intro ballI allI impI)
    fix p nm
    assume p: "p \<in> set ps" and nm: "nm \<noteq> [] \<and> lists_author nm p"
    then have "nm \<in> ename ` set es"
      unfolding names by blast
    then obtain e where e: "e \<in> set es" "ename e = nm"
      by blast
    have "papers e = js_sort year_cmp (credited_all nm ps)"
      using ranking_entry [OF ds, of e lc] e st [of nm] nm by (simp add: es)
    then have "p \<in> set (papers e)"
      using p nm by (simp add: set_js_sort set_credited_all)
    with e show "\<exists>e \<in> set es. ename e = nm \<and> p \<in> set (papers e)"
      by blast
  qed
qed

lemma first_entries:
  assumes "renderFirstAuthorsRanking lc ps = Inr es"
  shows "\<forall>e \<in> set es. ename e \<noteq> [] \<and> (\<exists>p \<in> set ps. is_first_author (ename e) p)"
    and "\<forall>p \<in> set ps. \<forall>nm. nm \<noteq> [] \<and> is_first_author nm p \<longrightarrow>
           (\<exists>e \<in> set es. ename e = nm \<and> p \<in> set (papers e))"
proof -
  from renderFirstAuthorsRanking_Inr [OF assms] obtain ap where ap:
    "collect_first_authors [] ps = Inr ap \<and> es = ranking lc ap
     \<and> distinct (map fst ap) \<and> dom (map_of ap) = fst ` set (credits first_author_name ps)
     \<and> (\<forall>X. X \<noteq> [] \<longrightarrow> stored ap X = filter (is_first_author X) ps)
     \<and> (\<forall>X \<in> dom (map_of ap). X \<noteq> [])" ..
  have es: "es = ranking lc ap" and ds: "distinct (map fst ap)"
    and dm: "dom (map_of ap) = fst ` set (credits first_author_name ps)"
    using ap by simp_all
  have st: "stored ap X = filter (is_first_author X) ps" if "X \<noteq> []" for X
    using ap that by simp
  have names: "ename ` set es = {nm. nm \<noteq> [] \<and> (\<exists>p \<in> set ps. is_first_author nm p)}"
    unfolding es ranking_names(2) [OF ds] dm fst_credits by (auto simp: first_name_listed)
  show "\<forall>e \<in> set es. ename e \<noteq> [] \<and> (\<exists>p \<in> set ps. is_first_author (ename e) p)"
    using names by blast
  show "\<forall>p \<in> set ps. \<forall>nm. nm \<noteq> [] \<and> is_first_author nm p \<longrightarrow>
           (\<exists>e \<in> set es. ename e = nm \<and> p \<in> set (papers e))"
  proof (intro ballI allI impI)
    fix p nm
    assume p: "p \<in> set ps" and nm: "nm \<noteq> [] \<and> is_first_author nm p"
    then have "nm \<in> ename ` set es"
      unfolding names by blast
    then obtain e where e: "e \<in> set es" "ename e = nm"
      by blast
    have "papers e = js_sort year_cmp (filter (is_first_author nm) ps)"
      using ranking_entry [OF ds, of e lc] e st [of nm] nm by (simp add: es)
    then have "p \<in> set (papers e)"
      using p nm by (simp add: set_js_sort)
    with e show "\<exists>e \<in> set es. ename e = nm \<and> p \<in> set (papers e)"
      by blast
  qed
qed

lemma prototype_name_raises:
  "renderAuthorsRanking codeunit_compare [paper1, paper8] = Inl TypeError
   \<and> renderFirstAuthorsRanking codeunit_compare [paper1, paper8] = Inl TypeError"
  by code_simp

lemma assign_ranks_example:
  "map rank (assign_ranks None 0
      (map (\<lambda>c. \<lparr>ename = [], papers = ([] :: paper list), count = c\<rparr>) [5, 5, 3, 3, 3, 1]))
   = [1, 1, 2, 2, 2, 3]"
  by (simp add: Let_def)

section \<open>Ranking: results\<close>

text \<open>
  C2, amended. When the ranking of all authors returns, it has one entry for a
  name \<open>X\<close> that is not empty if a paper lists an author record with that name,
  and none otherwise, and no two entries bear the same name. The count of the
  entry is the number of author records with the name \<open>X\<close> in the author lists of
  the papers, at any position: a paper counts once for each of its records with
  that name. When no paper lists the name twice, this is the number of papers
  that list it.
\<close>

theorem all_authors_count:
  assumes "renderAuthorsRanking lc ps = Inr es" and "X \<noteq> []"
  shows "distinct (map ename es)
    \<and> ((\<exists>e \<in> set es. ename e = X) \<longleftrightarrow> (\<exists>p \<in> set ps. lists_author X p))
    \<and> (\<forall>e \<in> set es. ename e = X \<longrightarrow> count e = sum_list (map (occurrences X) ps))
    \<and> ((\<forall>p \<in> set ps. occurrences X p \<le> 1) \<longrightarrow>
          sum_list (map (occurrences X) ps) = length (filter (lists_author X) ps))"
proof -
  from renderAuthorsRanking_Inr [OF assms(1)] obtain ap where ap:
    "collect_authors [] ps = Inr ap \<and> es = ranking lc ap
     \<and> distinct (map fst ap) \<and> dom (map_of ap) = fst ` set (credits author_names ps)
     \<and> (\<forall>X. X \<noteq> [] \<longrightarrow> stored ap X = credited_all X ps)
     \<and> (\<forall>X \<in> dom (map_of ap). X \<noteq> [])" ..
  have es: "es = ranking lc ap" and ds: "distinct (map fst ap)"
    and dm: "dom (map_of ap) = fst ` set (credits author_names ps)"
    using ap by simp_all
  have st: "stored ap X = credited_all X ps" if "X \<noteq> []" for X
    using ap that by simp
  have ne: "X \<noteq> []" if "X \<in> dom (map_of ap)" for X
    using ap that by blast
  have 1: "distinct (map ename es)"
    unfolding es by (rule ranking_names(1) [OF ds])
  have "(\<exists>e \<in> set es. ename e = X) \<longleftrightarrow> X \<in> ename ` set es"
    by auto
  also have "\<dots> \<longleftrightarrow> (\<exists>p \<in> set ps. lists_author X p)"
    unfolding es ranking_names(2) [OF ds] dm fst_credits using assms(2) by (simp add: names_listed)
  finally have 2: "(\<exists>e \<in> set es. ename e = X) \<longleftrightarrow> (\<exists>p \<in> set ps. lists_author X p)" .
  have 3: "count e = sum_list (map (occurrences X) ps)" if "e \<in> set es" "ename e = X" for e
    using ranking_entry [OF ds, of e lc] that st [OF assms(2)]
    by (simp add: es length_credited_all)
  have 4: "(\<forall>p \<in> set ps. occurrences X p \<le> 1) \<longrightarrow>
          sum_list (map (occurrences X) ps) = length (filter (lists_author X) ps)"
    by (simp add: occurrences_once)
  from 1 2 3 4 show ?thesis
    by (intro conjI ballI impI) simp_all
qed

theorem all_authors_count_witness:
  "renderAuthorsRanking codeunit_compare [paper1, paper2] =
     Inr [\<lparr>ename = js ''Alice Smith'', papers = [paper2, paper1], count = 2, rank = 1\<rparr>,
          \<lparr>ename = js ''Bob Lee'', papers = [paper2], count = 1, rank = 2\<rparr>]
   \<and> js ''Alice Smith'' \<noteq> []
   \<and> sum_list (map (occurrences (js ''Alice Smith'')) [paper1, paper2]) = 2
   \<and> length (filter (lists_author (js ''Alice Smith'')) [paper1, paper2]) = 2"
proof -
  let ?es = "[\<lparr>ename = js ''Alice Smith'', papers = [paper2, paper1], count = 2, rank = 1\<rparr>,
          \<lparr>ename = js ''Bob Lee'', papers = [paper2], count = 1, rank = 2 :: nat\<rparr>]"
  have r: "renderAuthorsRanking codeunit_compare [paper1, paper2] = Inr ?es"
    by code_simp
  have a: "js ''Alice Smith'' \<noteq> []"
    by (simp add: js_def)
  have o: "\<forall>p \<in> set [paper1, paper2]. occurrences (js ''Alice Smith'') p \<le> 1"
    by code_simp
  have m: "\<lparr>ename = js ''Alice Smith'', papers = [paper2, paper1], count = 2, rank = 1 :: nat\<rparr> \<in> set ?es"
    by simp
  from all_authors_count [OF r a] have
    "\<forall>e \<in> set ?es. ename e = js ''Alice Smith'' \<longrightarrow>
        count e = sum_list (map (occurrences (js ''Alice Smith'')) [paper1, paper2])"
    and "(\<forall>p \<in> set [paper1, paper2]. occurrences (js ''Alice Smith'') p \<le> 1) \<longrightarrow>
        sum_list (map (occurrences (js ''Alice Smith'')) [paper1, paper2])
        = length (filter (lists_author (js ''Alice Smith'')) [paper1, paper2])"
    by blast+
  with o m have "sum_list (map (occurrences (js ''Alice Smith'')) [paper1, paper2]) = 2"
    and "length (filter (lists_author (js ''Alice Smith'')) [paper1, paper2]) = 2"
    by force+
  with r a show ?thesis
    by blast
qed

text \<open>
  The claim as it is written fails for a paper that lists a name twice: the
  paper is pushed once for each record, and the author is credited with two
  papers where one paper lists the name.
\<close>

theorem all_authors_count_counterexample:
  "renderAuthorsRanking codeunit_compare [paper4] =
     Inr [\<lparr>ename = js ''Alice Smith'', papers = [paper4, paper4], count = 2, rank = 1\<rparr>]
   \<and> length (filter (lists_author (js ''Alice Smith'')) [paper4]) = 1"
  by code_simp





text \<open>
  C5. The ranking of first authors credits an author with exactly the papers
  whose author record at index 0 bears the author's name, in number and as a
  list, so with no paper where the record stands elsewhere and with no paper
  whose authors list is empty. Papers with an empty authors list can be taken out
  of the collection without any change to the result.
\<close>

theorem first_author_only:
  "renderFirstAuthorsRanking lc (filter (\<lambda>p. authors p \<noteq> AuthorArray []) ps)
     = renderFirstAuthorsRanking lc ps
   \<and> (\<forall>es. renderFirstAuthorsRanking lc ps = Inr es \<longrightarrow>
        (\<forall>e \<in> set es.
           count e = length (filter (is_first_author (ename e)) ps)
           \<and> papers e = js_sort year_cmp (filter (is_first_author (ename e)) ps)
           \<and> (\<forall>p \<in> set (papers e).
                 p \<in> set ps \<and> is_first_author (ename e) p \<and> authors p \<noteq> AuthorArray [])))"
proof (intro conjI allI impI ballI)
  show "renderFirstAuthorsRanking lc (filter (\<lambda>p. authors p \<noteq> AuthorArray []) ps)
     = renderFirstAuthorsRanking lc ps"
    by (rule render_filter_empty)
next
  fix es e
  assume r: "renderFirstAuthorsRanking lc ps = Inr es" and e: "e \<in> set es"
  from renderFirstAuthorsRanking_Inr [OF r] obtain ap where ap:
    "collect_first_authors [] ps = Inr ap \<and> es = ranking lc ap
     \<and> distinct (map fst ap) \<and> dom (map_of ap) = fst ` set (credits first_author_name ps)
     \<and> (\<forall>X. X \<noteq> [] \<longrightarrow> stored ap X = filter (is_first_author X) ps)
     \<and> (\<forall>X \<in> dom (map_of ap). X \<noteq> [])" ..
  have es: "es = ranking lc ap" and ds: "distinct (map fst ap)"
    and dm: "dom (map_of ap) = fst ` set (credits first_author_name ps)"
    using ap by simp_all
  have st: "stored ap X = filter (is_first_author X) ps" if "X \<noteq> []" for X
    using ap that by simp
  have ne: "X \<noteq> []" if "X \<in> dom (map_of ap)" for X
    using ap that by blast
  have re: "ename e \<in> dom (map_of ap)" "papers e = js_sort year_cmp (stored ap (ename e))"
      "count e = length (stored ap (ename e))"
    using ranking_entry [OF ds, of e lc] e by (simp_all add: es)
  have s: "stored ap (ename e) = filter (is_first_author (ename e)) ps"
    by (rule st [OF ne [OF re(1)]])
  show "count e = length (filter (is_first_author (ename e)) ps)"
    using re(3) s by simp
  show p: "papers e = js_sort year_cmp (filter (is_first_author (ename e)) ps)"
    using re(2) s by simp
  fix p
  assume "p \<in> set (papers e)"
  then have "p \<in> set ps \<and> is_first_author (ename e) p"
    unfolding p by (simp add: set_js_sort)
  then show "p \<in> set ps" "is_first_author (ename e) p" "authors p \<noteq> AuthorArray []"
    by (auto simp: is_first_author_def)
qed

theorem first_author_only_witness:
  "renderFirstAuthorsRanking codeunit_compare [paper1, paper5, paper2] =
     Inr [\<lparr>ename = js ''Bob Lee'', papers = [paper2], count = 1, rank = 1\<rparr>,
          \<lparr>ename = js ''Alice Smith'', papers = [paper1], count = 1, rank = 1\<rparr>]
   \<and> length (filter (is_first_author (js ''Alice Smith'')) [paper1, paper5, paper2]) = 1"
proof -
  let ?es = "[\<lparr>ename = js ''Bob Lee'', papers = [paper2], count = 1, rank = 1\<rparr>,
          \<lparr>ename = js ''Alice Smith'', papers = [paper1], count = 1, rank = 1 :: nat\<rparr>]"
  have r: "renderFirstAuthorsRanking codeunit_compare [paper1, paper2] = Inr ?es"
    by code_simp
  have f: "filter (\<lambda>p. authors p \<noteq> AuthorArray []) [paper1, paper5, paper2] = [paper1, paper2]"
    by (simp add: paper1_def paper2_def paper5_def)
  note t = first_author_only [of codeunit_compare "[paper1, paper5, paper2]"]
  from t have "renderFirstAuthorsRanking codeunit_compare
      (filter (\<lambda>p. authors p \<noteq> AuthorArray []) [paper1, paper5, paper2])
    = renderFirstAuthorsRanking codeunit_compare [paper1, paper5, paper2]"
    by blast
  then have "renderFirstAuthorsRanking codeunit_compare [paper1, paper2]
    = renderFirstAuthorsRanking codeunit_compare [paper1, paper5, paper2]"
    unfolding f .
  with r have r3: "renderFirstAuthorsRanking codeunit_compare [paper1, paper5, paper2] = Inr ?es"
    by simp
  let ?a = "\<lparr>ename = js ''Alice Smith'', papers = [paper1], count = 1, rank = 1 :: nat\<rparr>"
  have m: "?a \<in> set ?es" by simp
  from t r3 have "\<forall>e \<in> set ?es.
      count e = length (filter (is_first_author (ename e)) [paper1, paper5, paper2])"
    by blast
  from bspec [OF this m]
  have "length (filter (is_first_author (js ''Alice Smith'')) [paper1, paper5, paper2]) = 1"
    by (simp del: filter.simps)
  with r3 show ?thesis by blast
qed



text \<open>
  C9. Papers whose authors are missing or not an array, and papers that credit no
  name (first authors without a name, or only such authors), can be taken out of
  the collection without any change to the result of either ranking. An
  exception comes only from an author record that has a name, one of the
  properties of \<open>Object.prototype\<close>. When a ranking returns, no entry has an empty
  name, each entry has a paper that lists its name, and each name that is not
  empty and is listed (at index 0, for the first authors) by a paper of the
  collection has an entry with that paper.
\<close>

theorem malformed_skipped:
  "renderAuthorsRanking lc (filter has_author_array ps) = renderAuthorsRanking lc ps
   \<and> renderFirstAuthorsRanking lc (filter has_author_array ps) = renderFirstAuthorsRanking lc ps
   \<and> renderAuthorsRanking lc (filter (\<lambda>p. author_names p \<noteq> []) ps) = renderAuthorsRanking lc ps
   \<and> renderFirstAuthorsRanking lc (filter (\<lambda>p. first_author_name p \<noteq> []) ps)
       = renderFirstAuthorsRanking lc ps
   \<and> (\<forall>err. renderAuthorsRanking lc ps = Inl err \<longrightarrow>
         (\<exists>p \<in> set ps. \<exists>nm \<in> set Object_prototype_keys. lists_author nm p))
   \<and> (\<forall>err. renderFirstAuthorsRanking lc ps = Inl err \<longrightarrow>
         (\<exists>p \<in> set ps. \<exists>nm \<in> set Object_prototype_keys. is_first_author nm p))
   \<and> (\<forall>es. renderAuthorsRanking lc ps = Inr es \<longrightarrow>
         (\<forall>e \<in> set es. ename e \<noteq> [] \<and> (\<exists>p \<in> set ps. lists_author (ename e) p))
         \<and> (\<forall>p \<in> set ps. \<forall>nm. nm \<noteq> [] \<and> lists_author nm p \<longrightarrow>
               (\<exists>e \<in> set es. ename e = nm \<and> p \<in> set (papers e))))
   \<and> (\<forall>es. renderFirstAuthorsRanking lc ps = Inr es \<longrightarrow>
         (\<forall>e \<in> set es. ename e \<noteq> [] \<and> (\<exists>p \<in> set ps. is_first_author (ename e) p))
         \<and> (\<forall>p \<in> set ps. \<forall>nm. nm \<noteq> [] \<and> is_first_author nm p \<longrightarrow>
               (\<exists>e \<in> set es. ename e = nm \<and> p \<in> set (papers e))))"
  using render_filter_array [of lc ps] render_filter_names [of lc ps]
    render_error [of lc ps] all_entries [of lc ps] first_entries [of lc ps]
  by (intro conjI allI impI) blast+

theorem malformed_skipped_witness:
  "renderAuthorsRanking codeunit_compare [paper3, paper7, paper6] =
     Inr [\<lparr>ename = js ''Bob Lee'', papers = [paper7], count = 1, rank = 1\<rparr>]"
proof -
  have r: "renderAuthorsRanking codeunit_compare [paper7] =
     Inr [\<lparr>ename = js ''Bob Lee'', papers = [paper7], count = 1, rank = 1\<rparr>]"
    by code_simp
  have f: "filter has_author_array [paper3, paper7, paper6] = [paper7]"
    by (simp add: has_author_array_def paper3_def paper6_def paper7_def)
  from malformed_skipped [of codeunit_compare "[paper3, paper7, paper6]"]
  have "renderAuthorsRanking codeunit_compare (filter has_author_array [paper3, paper7, paper6])
      = renderAuthorsRanking codeunit_compare [paper3, paper7, paper6]"
    by blast
  then have "renderAuthorsRanking codeunit_compare [paper7]
      = renderAuthorsRanking codeunit_compare [paper3, paper7, paper6]"
    unfolding f .
  with r show ?thesis by simp
qed

section \<open>Ranking in a store: results\<close>

lemma set_update_subset: "set (AList.update k v al) \<subseteq> insert (k, v) (set al)"
  by (induction al) auto

lemma credit_st_eq:
  "credit_st h ap nm r =
     (case map_of ap nm of
        Some a \<Rightarrow>
          if a < length (arrays h)
          then Inr (h\<lparr>arrays := (arrays h)[a := arrays h ! a @ [r]]\<rparr>, ap)
          else Inl (TypeError, h)
      | None \<Rightarrow>
          if nm \<in> set Object_prototype_keys then Inl (TypeError, h)
          else Inr (h\<lparr>arrays := arrays h @ [[r]]\<rparr>, AList.update nm (length (arrays h)) ap))"
  by (simp add: credit_st_def get_property_def new_array_def push_def Let_def update_conv'
           split: option.splits)

lemma unchangedI:
  "objects h = objects h0 \<Longrightarrow> take (length (arrays h0)) (arrays h) = arrays h0 \<Longrightarrow> unchanged h0 h"
  by (simp add: unchanged_def)

lemma unchangedD:
  assumes "unchanged h0 h"
  shows "objects h = objects h0"
    and "take (length (arrays h0)) (arrays h) = arrays h0"
    and "length (arrays h0) \<le> length (arrays h)"
    and "\<And>a. a < length (arrays h0) \<Longrightarrow> arrays h ! a = arrays h0 ! a"
proof -
  show 1: "objects h = objects h0" and 2: "take (length (arrays h0)) (arrays h) = arrays h0"
    using assms by (simp_all add: unchanged_def)
  have "length (take (length (arrays h0)) (arrays h)) = length (arrays h0)"
    by (simp only: 2)
  then show "length (arrays h0) \<le> length (arrays h)"
    by simp
  show "arrays h ! a = arrays h0 ! a" if "a < length (arrays h0)" for a
  proof -
    have "take (length (arrays h0)) (arrays h) ! a = arrays h ! a"
      using that by simp
    then show ?thesis by (simp only: 2)
  qed
qed

lemma created_sinceD:
  assumes "created_since h0 R h ap"
  shows "unchanged h0 h"
    and "\<And>a. a \<in> snd ` set ap \<Longrightarrow> length (arrays h0) \<le> a"
    and "\<And>a. a \<in> snd ` set ap \<Longrightarrow> a < length (arrays h)"
    and "\<And>a. a \<in> snd ` set ap \<Longrightarrow> set (elements h a) \<subseteq> R"
  using assms unfolding created_since_def by blast+

lemma created_sinceI:
  assumes "unchanged h0 h"
    and "\<And>a. a \<in> snd ` set ap \<Longrightarrow>
           length (arrays h0) \<le> a \<and> a < length (arrays h) \<and> set (elements h a) \<subseteq> R"
  shows "created_since h0 R h ap"
  using assms unfolding created_since_def by blast

lemma credit_st_raise: "credit_st h ap nm r = Inl (e, h') \<Longrightarrow> h' = h"
  by (auto simp: credit_st_eq split: option.splits if_splits)

lemma credit_st_created:
  assumes c: "created_since h0 R h ap" and r: "r \<in> R"
    and "credit_st h ap nm r = Inr (h', ap')"
  shows "created_since h0 R h' ap'"
proof (cases "map_of ap nm")
  case None
  let ?a = "length (arrays h)"
  from None assms(3) have h': "h' = h\<lparr>arrays := arrays h @ [[r]]\<rparr>"
    and ap': "ap' = AList.update nm ?a ap"
    by (simp_all add: credit_st_eq split: if_splits)
  note u = unchangedD [OF created_sinceD(1) [OF c]]
  show ?thesis
  proof (rule created_sinceI)
    show "unchanged h0 h'"
      using u(1,2,3) by (intro unchangedI) (simp_all add: h')
    show "length (arrays h0) \<le> a \<and> a < length (arrays h') \<and> set (elements h' a) \<subseteq> R"
      if "a \<in> snd ` set ap'" for a
    proof (cases "a = ?a")
      case True
      then show ?thesis
        using u(3) r by (simp add: h' elements_def)
    next
      case False
      from that have "a \<in> snd ` insert (nm, ?a) (set ap)"
        unfolding ap' using set_update_subset [of nm ?a ap] by blast
      with False have a: "a \<in> snd ` set ap" by auto
      from created_sinceD(2,3,4) [OF c a] show ?thesis
        by (simp add: h' elements_def nth_append)
    qed
  qed
next
  case (Some a)
  with assms(3) have al: "a < length (arrays h)"
    and h': "h' = h\<lparr>arrays := (arrays h)[a := arrays h ! a @ [r]]\<rparr>" and ap': "ap' = ap"
    by (auto simp: credit_st_eq split: if_splits)
  from Some have "(nm, a) \<in> set ap" by (rule map_of_SomeD)
  then have a: "a \<in> snd ` set ap" by force
  note u = unchangedD [OF created_sinceD(1) [OF c]]
  note ca = created_sinceD(2,3,4) [OF c a]
  show ?thesis
  proof (rule created_sinceI)
    show "unchanged h0 h'"
      using u(1,2) ca(1) by (intro unchangedI) (simp_all add: h' take_update_cancel)
    show "length (arrays h0) \<le> b \<and> b < length (arrays h') \<and> set (elements h' b) \<subseteq> R"
      if "b \<in> snd ` set ap'" for b
    proof -
      from that have b: "b \<in> snd ` set ap" by (simp add: ap')
      from created_sinceD(2,3,4) [OF c b] ca r show ?thesis
        by (cases "b = a") (simp_all add: h' elements_def)
    qed
  qed
qed

lemma credit_st_kept:
  assumes "created_since h0 R h ap" "r \<in> R"
  shows "kept h0 R (credit_st h ap nm r)"
proof (cases "credit_st h ap nm r")
  case (Inl x)
  obtain e h' where x: "x = (e, h')" by (cases x)
  from Inl x have "h' = h" by (simp add: credit_st_raise)
  with Inl x created_sinceD(1) [OF assms(1)] show ?thesis
    by (simp add: kept_def)
next
  case (Inr y)
  obtain h' ap' where y: "y = (h', ap')" by (cases y)
  from credit_st_created [OF assms] Inr y show ?thesis
    by (simp add: kept_def)
qed

lemma kept_refl: "created_since h0 R h ap \<Longrightarrow> kept h0 R (Inr (h, ap))"
  by (simp add: kept_def)

lemma kept_bind:
  assumes "kept h0 R out"
    and "\<And>h ap. created_since h0 R h ap \<Longrightarrow> kept h0 R (f h ap)"
  shows "kept h0 R (case out of Inl e \<Rightarrow> Inl e | Inr (h, ap) \<Rightarrow> f h ap)"
proof (cases out)
  case (Inl x)
  with assms(1) show ?thesis by (simp add: kept_def)
next
  case (Inr y)
  obtain h ap where y: "y = (h, ap)" by (cases y)
  from assms(1) Inr y have "created_since h0 R h ap" by (simp add: kept_def)
  from assms(2) [OF this] Inr y show ?thesis by simp
qed

lemma credit_authors_st_kept:
  assumes "r \<in> R"
  shows "created_since h0 R h ap \<Longrightarrow> kept h0 R (credit_authors_st h ap r as)"
proof (induction as arbitrary: h ap)
  case Nil
  then show ?case by (simp add: kept_refl)
next
  case (Cons a as)
  show ?case
  proof (cases "name a")
    case None
    with Cons show ?thesis by simp
  next
    case (Some nm)
    show ?thesis
    proof (cases "nm = []")
      case True
      with Some Cons show ?thesis by simp
    next
      case False
      have "kept h0 R (case credit_st h ap nm r of Inl e \<Rightarrow> Inl e
              | Inr (h', ap') \<Rightarrow> credit_authors_st h' ap' r as)"
        using credit_st_kept [OF Cons.prems assms] Cons.IH by (rule kept_bind)
      with Some False show ?thesis by simp
    qed
  qed
qed

lemma paper_authors_st_kept:
  "created_since h0 R h ap \<Longrightarrow> r \<in> R \<Longrightarrow> kept h0 R (paper_authors_st h ap r)"
  by (cases "authors (objects h r)")
     (simp_all add: paper_authors_st_def kept_refl credit_authors_st_kept)

lemma paper_first_author_st_kept:
  assumes "created_since h0 R h ap" "r \<in> R"
  shows "kept h0 R (paper_first_author_st h ap r)"
proof (cases "authors (objects h r)")
  case (AuthorArray as)
  show ?thesis
  proof (cases as)
    case Nil
    with AuthorArray assms show ?thesis
      by (simp add: paper_first_author_st_def kept_refl)
  next
    case (Cons a as')
    with AuthorArray assms show ?thesis
      by (cases "name a")
         (simp_all add: paper_first_author_st_def kept_refl credit_st_kept)
  qed
qed (use assms in \<open>simp_all add: paper_first_author_st_def kept_refl\<close>)

lemma forEach_st_kept:
  assumes body: "\<And>h ap r. created_since h0 R h ap \<Longrightarrow> r \<in> R \<Longrightarrow> kept h0 R (body h ap r)"
    and a: "a < length (arrays h0)" and R: "set (arrays h0 ! a) \<subseteq> R"
  shows "created_since h0 R h ap \<Longrightarrow> kept h0 R (forEach_st body h ap a k len)"
proof (induction "len - k" arbitrary: h ap k)
  case 0
  then show ?case
    by (simp add: kept_refl)
next
  case (Suc n)
  from Suc.hyps(2) have k: "k < len" and n: "n = len - Suc k" by simp_all
  note u = unchangedD [OF created_sinceD(1) [OF Suc.prems]]
  note unfold = forEach_st.simps [of body h ap a k len]
  show ?case
  proof (cases "a < length (arrays h) \<and> k < length (arrays h ! a)")
    case False
    with k Suc.hyps(1) [OF n Suc.prems] show ?thesis
      by (auto simp del: forEach_st.simps simp add: unfold)
  next
    case True
    have "arrays h ! a = arrays h0 ! a"
      using u(4) a by simp
    with True R have r: "arrays h ! a ! k \<in> R"
      by (metis nth_mem subsetD)
    from body [OF Suc.prems r] have b: "kept h0 R (body h ap (arrays h ! a ! k))" .
    show ?thesis
    proof (cases "body h ap (arrays h ! a ! k)")
      case (Inl x)
      with b k True show ?thesis
        by (auto simp del: forEach_st.simps simp add: unfold kept_def)
    next
      case (Inr y)
      obtain h' ap' where y: "y = (h', ap')" by (cases y)
      from b Inr y have "created_since h0 R h' ap'"
        by (simp add: kept_def)
      from Suc.hyps(1) [OF n this] Inr y k True show ?thesis
        by (auto simp del: forEach_st.simps simp add: unfold)
    qed
  qed
qed

lemma created_since_start: "created_since h R h []"
  by (simp add: created_since_def unchanged_def)

lemma sort_papers_frame:
  "objects (sort_papers h es) = objects h
   \<and> length (arrays (sort_papers h es)) = length (arrays h)
   \<and> (\<forall>n. (\<forall>e \<in> set es. n \<le> papers e) \<longrightarrow>
         take n (arrays (sort_papers h es)) = take n (arrays h))
   \<and> (\<forall>a. set (elements (sort_papers h es) a) = set (elements h a))"
proof (induction es arbitrary: h)
  case Nil
  then show ?case by simp
next
  case (Cons e es)
  let ?h1 = "h\<lparr>arrays := (arrays h)[papers e := js_sort (year_cmp_st h) (elements h (papers e))]\<rparr>"
  have 1: "objects ?h1 = objects h" "length (arrays ?h1) = length (arrays h)"
    by simp_all
  have 2: "take n (arrays ?h1) = take n (arrays h)" if "n \<le> papers e" for n
    using that by (simp add: take_update_cancel)
  have 3: "set (elements ?h1 a) = set (elements h a)" for a
    by (cases "a = papers e") (simp_all add: elements_def set_js_sort)
  have s: "sort_papers h (e # es) = sort_papers ?h1 es" by simp
  show ?case
    unfolding s using Cons.IH [of ?h1] 1 2 3 by (simp del: sort_papers.simps)
qed

lemma papers_ranking_st:
  "snd (ranking_st lc h ap) = es \<Longrightarrow> papers ` set es = snd ` set ap"
proof -
  assume "snd (ranking_st lc h ap) = es"
  then have es: "es = assign_ranks None 0 (js_sort (author_cmp lc) (map (entry_at h) (Object_entries ap)))"
    by (simp add: ranking_st_def Let_def)
  have "papers ` set es = set (map papers es)" by simp
  also have "\<dots> = papers ` set (map (entry_at h) (Object_entries ap))"
    unfolding es map_assign_ranks by (simp add: set_js_sort)
  also have "\<dots> = snd ` set ap"
    by (force simp: set_Object_entries entry_at_def image_iff)
  finally show ?thesis .
qed

lemma ranking_st_frame:
  assumes c: "created_since h0 R h ap" and "ranking_st lc h ap = (h', es)"
  shows "unchanged h0 h'"
    and "\<forall>e \<in> set es. length (arrays h0) \<le> papers e \<and> papers e < length (arrays h')
          \<and> set (elements h' (papers e)) \<subseteq> R"
proof -
  from assms(2) have h': "h' = sort_papers h es" and es: "snd (ranking_st lc h ap) = es"
    by (auto simp: ranking_st_def Let_def)
  note f = sort_papers_frame [of h es, folded h']
  note p = papers_ranking_st [OF es]
  note u = unchangedD [OF created_sinceD(1) [OF c]]
  have fresh: "length (arrays h0) \<le> papers e \<and> papers e < length (arrays h)
      \<and> set (elements h (papers e)) \<subseteq> R" if "e \<in> set es" for e
  proof -
    from that have "papers e \<in> snd ` set ap" unfolding p [symmetric] by simp
    from created_sinceD(2,3,4) [OF c this] show ?thesis by simp
  qed
  have "take (length (arrays h0)) (arrays h') = take (length (arrays h0)) (arrays h)"
    using f fresh by blast
  with u(1,2) f show "unchanged h0 h'"
    by (intro unchangedI) simp_all
  show "\<forall>e \<in> set es. length (arrays h0) \<le> papers e \<and> papers e < length (arrays h')
          \<and> set (elements h' (papers e)) \<subseteq> R"
    using fresh f by simp
qed

lemma render_st_frame:
  assumes body: "\<And>h1 ap r. created_since h (set (elements h papers_at)) h1 ap \<Longrightarrow>
      r \<in> set (elements h papers_at) \<Longrightarrow> kept h (set (elements h papers_at)) (body h1 ap r)"
  shows "unchanged h (store_after (render_st body lc h papers_at))"
    and "render_st body lc h papers_at = Inr (h', es) \<Longrightarrow>
         \<forall>e \<in> set es. length (arrays h) \<le> papers e \<and> papers e < length (arrays h')
          \<and> set (elements h' (papers e)) \<subseteq> set (elements h papers_at)"
proof -
  let ?R = "set (elements h papers_at)"
  let ?out = "forEach_st body h [] papers_at 0 (length (arrays h ! papers_at))"
  have k: "kept h ?R ?out" if a: "papers_at < length (arrays h)"
  proof (rule forEach_st_kept [OF body _ _ created_since_start])
    show "papers_at < length (arrays h)" by (rule a)
    show "set (arrays h ! papers_at) \<subseteq> ?R" using a by (simp add: elements_def)
  qed
  show "unchanged h (store_after (render_st body lc h papers_at))"
  proof (cases "papers_at < length (arrays h)")
    case False
    then show ?thesis
      by (simp add: render_st_def store_after_def unchanged_def)
  next
    case True
    show ?thesis
    proof (cases ?out)
      case (Inl x)
      obtain e h1 where x: "x = (e, h1)" by (cases x)
      from k [OF True] Inl x have "unchanged h h1"
        by (simp add: kept_def)
      with Inl x True show ?thesis
        by (simp add: render_st_def store_after_def)
    next
      case (Inr y)
      obtain h1 ap where y: "y = (h1, ap)" by (cases y)
      from k [OF True] Inr y have c: "created_since h ?R h1 ap"
        by (simp add: kept_def)
      obtain h2 es2 where r: "ranking_st lc h1 ap = (h2, es2)"
        by (cases "ranking_st lc h1 ap")
      from ranking_st_frame(1) [OF c r] Inr y r True show ?thesis
        by (simp add: render_st_def store_after_def)
    qed
  qed
  show "\<forall>e \<in> set es. length (arrays h) \<le> papers e \<and> papers e < length (arrays h')
          \<and> set (elements h' (papers e)) \<subseteq> ?R"
    if out: "render_st body lc h papers_at = Inr (h', es)"
  proof -
    from out have a: "papers_at < length (arrays h)"
      by (auto simp: render_st_def split: if_splits)
    have "\<exists>h1 ap. ?out = Inr (h1, ap) \<and> ranking_st lc h1 ap = (h', es)"
    proof (cases ?out)
      case (Inl x)
      with out a show ?thesis by (simp add: render_st_def)
    next
      case (Inr y)
      obtain h1 ap where y: "y = (h1, ap)" by (cases y)
      with out a Inr show ?thesis by (simp add: render_st_def)
    qed
    then obtain h1 ap where 1: "?out = Inr (h1, ap)" and 2: "ranking_st lc h1 ap = (h', es)"
      by blast
    from k [OF a] 1 have "created_since h ?R h1 ap"
      by (simp add: kept_def)
    from ranking_st_frame(2) [OF this 2] show ?thesis .
  qed
qed

text \<open>
  C10. Whatever a ranking function does, with a result or with an exception, it
  leaves the paper objects and every array of the store it was called in as they
  were, the array \<open>papers\<close> among them. The arrays of the entries it returns did
  not exist before, and they hold papers of \<open>papers\<close> only.
\<close>

theorem ranking_leaves_input_unchanged:
  assumes "out = renderAuthorsRanking_st lc h papers_at
         \<or> out = renderFirstAuthorsRanking_st lc h papers_at"
  shows "objects (store_after out) = objects h
    \<and> take (length (arrays h)) (arrays (store_after out)) = arrays h
    \<and> elements (store_after out) papers_at = elements h papers_at
    \<and> (\<forall>h' es. out = Inr (h', es) \<longrightarrow>
          (\<forall>e \<in> set es. length (arrays h) \<le> papers e \<and> papers e < length (arrays h')
             \<and> set (elements h' (papers e)) \<subseteq> set (elements h papers_at)))"
proof -
  obtain body where out: "out = render_st body lc h papers_at"
    and body: "\<And>h1 ap r. created_since h (set (elements h papers_at)) h1 ap \<Longrightarrow>
      r \<in> set (elements h papers_at) \<Longrightarrow> kept h (set (elements h papers_at)) (body h1 ap r)"
    using assms paper_authors_st_kept paper_first_author_st_kept
    unfolding renderAuthorsRanking_st_def renderFirstAuthorsRanking_st_def by blast
  note f = render_st_frame [of h papers_at body lc, OF body, folded out]
  note u = unchangedD [OF f(1)]
  have e: "elements (store_after out) papers_at = elements h papers_at"
  proof (cases "papers_at < length (arrays h)")
    case True
    with u(3,4) show ?thesis by (simp add: elements_def)
  next
    case False
    then have "out = Inl (TypeError, h)"
      by (simp add: out render_st_def)
    then show ?thesis by (simp add: store_after_def)
  qed
  from u(1,2) e f(2) show ?thesis by blast
qed

theorem ranking_leaves_input_unchanged_witness:
  "case renderAuthorsRanking_st codeunit_compare store0 0 of
     Inl e \<Rightarrow> False
   | Inr (h', es) \<Rightarrow>
       objects h' = objects store0 \<and> arrays h' = [[0, 1], [1, 0], [1]]
       \<and> map papers es = [1, 2]"
proof -
  have e: "case renderAuthorsRanking_st codeunit_compare store0 0 of
     Inl e \<Rightarrow> False
   | Inr (h', es) \<Rightarrow> arrays h' = [[0, 1], [1, 0], [1]] \<and> map papers es = [1, 2]"
    by code_simp
  then obtain h' es where r: "renderAuthorsRanking_st codeunit_compare store0 0 = Inr (h', es)"
    by (cases "renderAuthorsRanking_st codeunit_compare store0 0") auto
  from ranking_leaves_input_unchanged [of "Inr (h', es)" codeunit_compare store0 0] r
  have "objects (store_after (Inr (h', es) :: nat ranked list outcome)) = objects store0"
    by simp
  then have "objects h' = objects store0"
    by (simp add: store_after_def)
  with e r show ?thesis
    by simp
qed

section \<open>Year range: results\<close>

lemma handle_bounds:
  "minYear (handle d s e) = minYear s \<and> maxYear (handle d s e) = maxYear s"
  by (cases e) (auto simp: Let_def)

lemma events_bounds:
  "minYear (foldl (handle d) s evs) = minYear s \<and> maxYear (foldl (handle d) s evs) = maxYear s"
  by (induction evs arbitrary: s) (simp_all add: handle_bounds)

lemma loadPapers_empty:
  "loadPapers d lc [] s =
     Inr (initYearSlider d (s\<lparr>allPapers := [], minYear := PosInfinity, maxYear := NegInfinity\<rparr>))"
  by (simp add: loadPapers_def Let_def Math_min_def Math_max_def initYearSlider_def
        renderAuthorsRanking_def renderFirstAuthorsRanking_def)

text \<open>
  C6. The claim says that the range is never inverted. The code inverts it for
  an empty collection: \<open>loadPapers\<close> returns normally, so the handlers are
  registered, with \<open>yearFrom = Infinity\<close> above \<open>yearTo = -Infinity\<close>, and the reset
  gives this range again after any events, whatever \<open>parseInt\<close> and the sliders
  do. The comments of the handlers (\<open>Ensure from <= to\<close>, \<open>Ensure to >= from\<close>) say
  what the claim says.
\<close>

theorem year_range_inverted_on_empty_collection:
  "\<exists>s1. loadPapers d lc [] s = Inr s1
     \<and> yearFrom s1 = Some PosInfinity \<and> yearTo s1 = Some NegInfinity
     \<and> yearFrom (handle d (foldl (handle d) s1 evs) ResetYears) = Some PosInfinity
     \<and> yearTo (handle d (foldl (handle d) s1 evs) ResetYears) = Some NegInfinity
     \<and> \<not> in_order s1
     \<and> \<not> in_order (handle d (foldl (handle d) s1 evs) ResetYears)
     \<and> js_lt NegInfinity PosInfinity"
proof -
  let ?s1 = "initYearSlider d (s\<lparr>allPapers := [], minYear := PosInfinity, maxYear := NegInfinity\<rparr>)"
  let ?s2 = "foldl (handle d) ?s1 evs"
  have b: "minYear ?s2 = PosInfinity" "maxYear ?s2 = NegInfinity"
    by (simp_all add: events_bounds initYearSlider_def)
  have 1: "yearFrom ?s1 = Some PosInfinity \<and> yearTo ?s1 = Some NegInfinity"
    by (simp add: initYearSlider_def)
  have 2: "yearFrom (handle d ?s2 ResetYears) = Some PosInfinity
         \<and> yearTo (handle d ?s2 ResetYears) = Some NegInfinity"
    by (simp add: b)
  from 1 2 have "\<not> in_order ?s1" "\<not> in_order (handle d ?s2 ResetYears)"
    by (simp_all add: in_order_def)
  with 1 2 loadPapers_empty [of d lc s] show ?thesis
    by simp
qed

lemma initYearSlider_ok:
  assumes "minYear s = Num lo" "maxYear s = Num hi" "lo \<le> hi" "gives_back d s"
  shows "year_range_ok d (initYearSlider d s)"
proof -
  have "between_bounds s lo" "between_bounds s hi"
    using assms(1-3) by (simp_all add: between_bounds_def)
  with assms(4) have "parseInt d (range_value d (Num lo) (Num hi) (Num lo)) = Num lo"
    "parseInt d (range_value d (Num lo) (Num hi) (Num hi)) = Num hi"
    unfolding gives_back_def assms(1,2) by blast+
  with assms(1-3) show ?thesis
    by (simp add: year_range_ok_def initYearSlider_def between_bounds_def)
qed

lemma handle_ok:
  assumes ok: "year_range_ok d s" and gb: "gives_back d s" and ev: "moved_between d s e"
  shows "year_range_ok d (handle d s e)"
proof -
  from ok obtain f t where ft: "yearFrom s = Some (Num f)" "yearTo s = Some (Num t)"
    "parseInt d (sliderFrom s) = Num f" "parseInt d (sliderTo s) = Num t"
    "f \<le> t" "between_bounds s f" "between_bounds s t"
    unfolding year_range_ok_def by blast
  have rt: "parseInt d (range_value d (minYear s) (maxYear s) (Num v)) = Num v"
    if "between_bounds s v" for v
    using gb that unfolding gives_back_def by blast
  show ?thesis
  proof (cases e)
    case (SlideFrom str)
    with ev obtain v where v: "parseInt d str = Num v" "between_bounds s v"
      by (auto simp: moved_between_def)
    show ?thesis
    proof (cases "t < v")
      case True
      with SlideFrom v ft rt [OF ft(7)] show ?thesis
        by (simp add: year_range_ok_def Let_def between_bounds_def)
    next
      case False
      with SlideFrom v ft show ?thesis
        by (simp add: year_range_ok_def Let_def between_bounds_def)
    qed
  next
    case (SlideTo str)
    with ev obtain v where v: "parseInt d str = Num v" "between_bounds s v"
      by (auto simp: moved_between_def)
    show ?thesis
    proof (cases "v < f")
      case True
      with SlideTo v ft rt [OF ft(6)] show ?thesis
        by (simp add: year_range_ok_def Let_def between_bounds_def)
    next
      case False
      with SlideTo v ft show ?thesis
        by (simp add: year_range_ok_def Let_def between_bounds_def)
    qed
  next
    case ResetYears
    from ft(6) obtain lo hi where b: "minYear s = Num lo" "maxYear s = Num hi" "lo \<le> hi"
      by (auto simp: between_bounds_def split: jsnum.splits)
    then have "between_bounds s lo" "between_bounds s hi"
      by (simp_all add: between_bounds_def)
    from rt [OF this(1)] rt [OF this(2)] b ResetYears show ?thesis
      by (simp add: year_range_ok_def between_bounds_def)
  qed
qed

lemma year_range_ok_in_order: "year_range_ok d s \<Longrightarrow> in_order s"
  by (auto simp: year_range_ok_def in_order_def)

text \<open>
  For a collection with a paper in it, sliders that give back what is assigned to
  them and moves between the bounds, the range stays in order.
\<close>

lemma between_bounds_handle: "between_bounds (handle d s e) v = between_bounds s v"
  by (simp add: between_bounds_def handle_bounds)

lemma gives_back_handle: "gives_back d (handle d s e) = gives_back d s"
  by (simp add: gives_back_def between_bounds_handle handle_bounds)

lemma moved_between_handle: "moved_between d (handle d s e') e = moved_between d s e"
  by (cases e) (simp_all add: moved_between_def between_bounds_handle)

lemma events_ok:
  "year_range_ok d s \<Longrightarrow> gives_back d s \<Longrightarrow> \<forall>e \<in> set evs. moved_between d s e \<Longrightarrow>
   year_range_ok d (foldl (handle d) s evs)"
proof (induction evs arbitrary: s)
  case Nil
  then show ?case by simp
next
  case (Cons e evs)
  have "year_range_ok d (handle d s e)"
    using Cons.prems by (intro handle_ok) simp_all
  moreover have "gives_back d (handle d s e)"
    using Cons.prems(2) by (simp add: gives_back_handle)
  moreover have "\<forall>e' \<in> set evs. moved_between d (handle d s e) e'"
    using Cons.prems(3) by (simp add: moved_between_handle)
  ultimately show ?case
    using Cons.IH by simp
qed

lemma fold_min_le: "fold min ys (y :: int) \<le> y"
proof (induction ys arbitrary: y)
  case Nil
  then show ?case by simp
next
  case (Cons z ys)
  have "fold min ys (min z y) \<le> min z y" by (rule Cons.IH)
  then show ?case by simp
qed

lemma fold_max_ge: "(y :: int) \<le> fold max ys y"
proof (induction ys arbitrary: y)
  case Nil
  then show ?case by simp
next
  case (Cons z ys)
  have "max z y \<le> fold max ys (max z y)" by (rule Cons.IH)
  then show ?case by simp
qed

lemma loadPapers_ok:
  assumes "data \<noteq> []" and "loadPapers d lc data s = Inr s1" and "gives_back d s1"
  shows "year_range_ok d s1"
proof -
  obtain p ps where data: "data = p # ps"
    using assms(1) by (cases data) auto
  let ?lo = "fold min (map year ps) (year p)"
  let ?hi = "fold max (map year ps) (year p)"
  let ?s = "s\<lparr>allPapers := data, minYear := Num ?lo, maxYear := Num ?hi\<rparr>"
  from assms(2) have s1: "s1 = initYearSlider d ?s"
    by (simp add: loadPapers_def Let_def data Math_min_def Math_max_def split: sum.splits)
  have "?lo \<le> ?hi"
    using fold_min_le [of "map year ps" "year p"] fold_max_ge [of "year p" "map year ps"]
    by linarith
  moreover have "gives_back d ?s"
    using assms(3) unfolding s1 by (simp add: gives_back_def between_bounds_def initYearSlider_def)
  ultimately show ?thesis
    unfolding s1 by (intro initYearSlider_ok [of _ ?lo ?hi]) simp_all
qed

end
